theory Spec2Isabelle
  imports Main "HOL-Library.Word" "HOL-Library.Signed_Division" "HOL-Library.While_Combinator"
begin

section \<open>ptysd: a pseudo-terminal shell server\<close>

text \<open>
  The development embeds \<^verbatim>\<open>src/ptysd.c\<close>. Every system call is an interaction with the
  operating system, so each function is modelled against a scripted environment: a record of
  functions giving the value the k-th call of each system call returns. The calls a function
  makes are logged, in program order, in a list of events; the properties below are
  properties of those logs and of the program variables.
\<close>

subsection \<open>The relay worker, \<^verbatim>\<open>ps_relay_one\<close>\<close>

type_synonym fd = int
type_synonym byte = "8 word"
type_synonym pthread = nat

text \<open>
  The two global tables of lines 252-253. \<^verbatim>\<open>ps_relay_fds\<close> starts as \<^verbatim>\<open>{ -1, -1 }\<close>, the
  handle table is zero-initialised static storage.
\<close>

record relay_shared =
  ps_relay_fds :: "fd list"
  ps_relay_threads :: "pthread list"

definition relay_shared0 :: relay_shared where
  "relay_shared0 = \<lparr>ps_relay_fds = [-1, -1], ps_relay_threads = [0, 0]\<rparr>"

text \<open>The result of one \<^verbatim>\<open>read(sourcefd, buf, sizeof (buf))\<close>: \<^verbatim>\<open>-1\<close>, or the bytes stored.\<close>

datatype read_result = ReadErr | ReadOk "byte list"

fun read_ret :: "read_result \<Rightarrow> int" where
  "read_ret ReadErr = -1"
| "read_ret (ReadOk bs) = int (length bs)"

fun read_fill :: "read_result \<Rightarrow> byte list \<Rightarrow> byte list" where
  "read_fill ReadErr buf = buf"
| "read_fill (ReadOk bs) buf = bs @ drop (length bs) buf"

text \<open>
  The environment of one worker: \<open>sys_read k\<close> is what the k-th call of \<^verbatim>\<open>read\<close> returns,
  \<open>sys_write k c\<close> what the k-th call of \<^verbatim>\<open>write\<close> returns when asked for \<open>c\<close> bytes.
\<close>

record relay_env =
  sys_read :: "nat \<Rightarrow> read_result"
  sys_write :: "nat \<Rightarrow> int \<Rightarrow> int"

text \<open>
  The calls a worker makes. A write logs the offset into \<^verbatim>\<open>buf\<close>, the count, the bytes
  at that place and the value returned.
\<close>

datatype relay_event =
    EvRead fd read_result
  | EvWrite fd int int "byte list" int
  | EvClose fd
  | EvPerror string
  | EvCancel pthread

text \<open>
  Where a worker is: about to call \<^verbatim>\<open>read\<close> (line 293), at the test of the inner loop
  (line 301), returned (line 321), or stopped by the assertion of line 314. A worker that
  the other one cancels stops inside one of its calls; what it has done by then is what a
  run of fewer steps does, so a property of every number of steps covers it.
\<close>

datatype relay_at = AtRead | AtWrite | Returned | Aborted

record relay_local =
  sourcefd :: fd
  destfd :: fd
  other :: pthread
  buf :: "byte list"
  nread :: int
  towrite :: int
  nwritten :: int
  reads :: nat
  writes :: nat
  trace :: "relay_event list"
  at :: relay_at

definition INT_MAX :: int where
  "INT_MAX = 2147483647"

text \<open>
  Reading a two-element table at a C \<^verbatim>\<open>int\<close> index; an index outside the table is
  undefined behaviour, here \<open>None\<close>.
\<close>

definition table_get :: "'a list \<Rightarrow> int \<Rightarrow> 'a option" where
  "table_get xs i = (if 0 \<le> i \<and> i < int (length xs) then Some (xs ! nat i) else None)"

text \<open>
  \<^verbatim>\<open>(sourcefd + 1) % 2\<close> of lines 290-291: C's remainder truncates towards zero
  (\<open>smod\<close>), and the addition overflows at \<^verbatim>\<open>INT_MAX\<close>.
\<close>

definition other_index :: "fd \<Rightarrow> int option" where
  "other_index sfd = (if sfd = INT_MAX then None else Some ((sfd + 1) smod 2))"

text \<open>
  Lines 289-291. The remaining locals are uninitialised: they start with whatever the
  frame \<open>l0\<close> holds.
\<close>

definition ps_relay_one_entry :: "relay_shared \<Rightarrow> int \<Rightarrow> relay_local \<Rightarrow> relay_local option" where
  "ps_relay_one_entry g arg l0 =
     (case table_get (ps_relay_fds g) arg of
        None \<Rightarrow> None
      | Some sfd \<Rightarrow>
         (case other_index sfd of
            None \<Rightarrow> None
          | Some i \<Rightarrow>
             (case (table_get (ps_relay_fds g) i, table_get (ps_relay_threads g) i) of
                (Some dfd, Some oth) \<Rightarrow>
                  Some (l0\<lparr>sourcefd := sfd, destfd := dfd, other := oth,
                           reads := 0, writes := 0, trace := [], at := AtRead\<rparr>)
              | _ \<Rightarrow> None)))"

definition log_event :: "relay_event \<Rightarrow> relay_local \<Rightarrow> relay_local" where
  "log_event e s = s\<lparr>trace := trace s @ [e]\<rparr>"

text \<open>Lines 317-321: after the outer loop.\<close>

definition relay_exit :: "relay_local \<Rightarrow> relay_local" where
  "relay_exit s =
     (let s1 = (if nread s < 0 then log_event (EvPerror ''child: read'') s else s)
      in (log_event (EvCancel (other s1)) s1)\<lparr>at := Returned\<rparr>)"

text \<open>Lines 311-314: after the inner loop.\<close>

definition after_write_loop :: "relay_local \<Rightarrow> relay_local" where
  "after_write_loop s =
     (if towrite s > 0 then relay_exit s
      else if towrite s = 0 then s\<lparr>at := AtRead\<rparr>
      else s\<lparr>at := Aborted\<rparr>)"

text \<open>Lines 293-299: the head of the outer loop, up to the inner loop.\<close>

definition read_step :: "relay_env \<Rightarrow> relay_local \<Rightarrow> relay_local" where
  "read_step env s =
     (let r = sys_read env (reads s);
          s1 = log_event (EvRead (sourcefd s) r)
                 (s\<lparr>nread := read_ret r, buf := read_fill r (buf s), reads := Suc (reads s)\<rparr>)
      in if nread s1 \<ge> 0 then
           (if nread s1 = 0 then relay_exit (log_event (EvClose (destfd s1)) s1)
            else s1\<lparr>towrite := nread s1, at := AtWrite\<rparr>)
         else relay_exit s1)"

text \<open>Lines 301-309: the test of the inner loop and one pass through its body.\<close>

definition write_step :: "relay_env \<Rightarrow> relay_local \<Rightarrow> relay_local" where
  "write_step env s =
     (if towrite s > 0 then
        (let off = nread s - towrite s;
             bytes = take (nat (towrite s)) (drop (nat off) (buf s));
             n = sys_write env (writes s) (towrite s);
             s1 = log_event (EvWrite (destfd s) off (towrite s) bytes n)
                    (s\<lparr>nwritten := n, writes := Suc (writes s)\<rparr>)
         in if nwritten s1 < 0 then after_write_loop (log_event (EvPerror ''child: write'') s1)
            else s1\<lparr>towrite := towrite s1 - nwritten s1\<rparr>)
      else after_write_loop s)"

definition relay_step :: "relay_env \<Rightarrow> relay_local \<Rightarrow> relay_local" where
  "relay_step env s =
     (case at s of
        AtRead \<Rightarrow> read_step env s
      | AtWrite \<Rightarrow> write_step env s
      | Returned \<Rightarrow> s
      | Aborted \<Rightarrow> s)"

definition relay_run :: "relay_env \<Rightarrow> nat \<Rightarrow> relay_local \<Rightarrow> relay_local" where
  "relay_run env n s = (relay_step env ^^ n) s"

definition relay_running :: "relay_local \<Rightarrow> bool" where
  "relay_running s = (at s = AtRead \<or> at s = AtWrite)"

text \<open>
  The inner loop of lines 301-309, run from its test until the worker has left it (the step
  that finds the test false also makes the checks of lines 311-314), and the whole worker.
  Both are \<open>None\<close> when the loop never ends.
\<close>

definition write_loop :: "relay_env \<Rightarrow> relay_local \<Rightarrow> relay_local option" where
  "write_loop env s = while_option (\<lambda>s. at s = AtWrite) (relay_step env) s"

definition ps_relay_one :: "relay_env \<Rightarrow> relay_shared \<Rightarrow> int \<Rightarrow> relay_local \<Rightarrow> relay_local option" where
  "ps_relay_one env g arg l0 =
     (case ps_relay_one_entry g arg l0 of
        None \<Rightarrow> None
      | Some s \<Rightarrow> while_option relay_running (relay_step env) s)"

subsection \<open>What the operating system promises, and what a log says\<close>

text \<open>
  \<^verbatim>\<open>read(fd, buf, 512)\<close> stores at most 512 bytes; \<^verbatim>\<open>write(fd, p, c)\<close> returns at
  most \<open>c\<close>.
\<close>

definition read_contract :: "relay_env \<Rightarrow> bool" where
  "read_contract env = (\<forall>k. read_ret (sys_read env k) \<le> 512)"

definition write_contract :: "relay_env \<Rightarrow> bool" where
  "write_contract env = (\<forall>k c. sys_write env k c \<le> c)"

text \<open>A write stays inside \<^verbatim>\<open>char buf[512]\<close>.\<close>

fun write_in_bounds :: "relay_event \<Rightarrow> bool" where
  "write_in_bounds (EvWrite d off cnt bs n) =
     (0 \<le> off \<and> 0 < cnt \<and> off + cnt \<le> 512 \<and> int (length bs) = cnt)"
| "write_in_bounds (EvRead d r) = True"
| "write_in_bounds (EvClose d) = True"
| "write_in_bounds (EvPerror m) = True"
| "write_in_bounds (EvCancel t) = True"

text \<open>The bytes the destination took, and the bytes the source gave, in the order of the log.\<close>

fun delivered :: "relay_event list \<Rightarrow> byte list" where
  "delivered [] = []"
| "delivered (EvWrite d off cnt bs n # es) = (if n < 0 then [] else take (nat n) bs) @ delivered es"
| "delivered (EvRead d r # es) = delivered es"
| "delivered (EvClose d # es) = delivered es"
| "delivered (EvPerror m # es) = delivered es"
| "delivered (EvCancel t # es) = delivered es"

fun received :: "relay_event list \<Rightarrow> byte list" where
  "received [] = []"
| "received (EvRead d (ReadOk bs) # es) = bs @ received es"
| "received (EvRead d ReadErr # es) = received es"
| "received (EvWrite d off cnt bs n # es) = received es"
| "received (EvClose d # es) = received es"
| "received (EvPerror m # es) = received es"
| "received (EvCancel t # es) = received es"

text \<open>The descriptors of a log: every read is from \<open>src\<close>, every write and close is on \<open>dst\<close>.\<close>

fun event_on :: "fd \<Rightarrow> fd \<Rightarrow> relay_event \<Rightarrow> bool" where
  "event_on src dst (EvRead d r) = (d = src)"
| "event_on src dst (EvWrite d off cnt bs n) = (d = dst)"
| "event_on src dst (EvClose d) = (d = dst)"
| "event_on src dst (EvPerror m) = True"
| "event_on src dst (EvCancel t) = True"

text \<open>
  The copying discipline as the specification words it, as a monitor that reads a log: a
  chunk is read only when the previous one is flushed; every write is handed exactly the
  part of the current chunk not yet taken; a partial write leaves the rest for the next
  write; end-of-stream, a read error and a write error each end the copying, and nothing is
  read or written afterwards.
\<close>

datatype copy_state = Copying "byte list" | Halted | Violated

fun copy_event :: "copy_state \<Rightarrow> relay_event \<Rightarrow> copy_state" where
  "copy_event (Copying p) (EvRead d ReadErr) = (if p = [] then Halted else Violated)"
| "copy_event (Copying p) (EvRead d (ReadOk bs)) =
     (if p \<noteq> [] then Violated else if bs = [] then Halted else Copying bs)"
| "copy_event (Copying p) (EvWrite d off cnt bs n) =
     (if p = [] \<or> bs \<noteq> p then Violated
      else if n < 0 then Halted
      else Copying (drop (nat n) p))"
| "copy_event Halted (EvRead d r) = Violated"
| "copy_event Halted (EvWrite d off cnt bs n) = Violated"
| "copy_event st (EvClose d) = st"
| "copy_event st (EvPerror m) = st"
| "copy_event st (EvCancel t) = st"
| "copy_event Violated e = Violated"

definition copy_protocol :: "relay_event list \<Rightarrow> copy_state" where
  "copy_protocol es = foldl copy_event (Copying []) es"

text \<open>The part of the current chunk a worker still has to write.\<close>

definition pending :: "relay_local \<Rightarrow> byte list" where
  "pending s =
     (if at s = AtRead \<or> nread s \<le> 0 then []
      else drop (nat (nread s - towrite s)) (take (nat (nread s)) (buf s)))"

definition copy_abs :: "relay_local \<Rightarrow> copy_state" where
  "copy_abs s = (case at s of
       AtRead \<Rightarrow> Copying []
     | AtWrite \<Rightarrow> Copying (pending s)
     | Returned \<Rightarrow> Halted
     | Aborted \<Rightarrow> Violated)"

definition bounds_inv :: "relay_local \<Rightarrow> bool" where
  "bounds_inv s =
     (length (buf s) = 512 \<and> at s \<noteq> Aborted \<and> list_all write_in_bounds (trace s) \<and>
      (if at s = AtWrite then 0 \<le> towrite s \<and> towrite s \<le> nread s \<and> 0 < nread s \<and> nread s \<le> 512
       else if at s = Returned \<and> 0 < nread s then 0 < towrite s \<and> towrite s \<le> nread s \<and> nread s \<le> 512
       else True))"

definition copy_inv :: "relay_local \<Rightarrow> bool" where
  "copy_inv s =
     (copy_protocol (trace s) = copy_abs s \<and>
      delivered (trace s) @ pending s = received (trace s))"

subsection \<open>The calls of the main thread\<close>

text \<open>
  One event per call made outside the relay workers, with the value the call returned.
  \<open>StoreFd i v\<close> is the assignment \<^verbatim>\<open>ps_relay_fds[i] = v\<close>; \<open>PthreadCreate i a r\<close> is
  \<^verbatim>\<open>pthread_create(&ps_relay_threads[i], NULL, ps_relay_one, a)\<close>, which on success
  (\<open>r = Some t\<close>) starts a worker with argument \<open>a\<close> and stores its handle \<open>t\<close> in slot \<open>i\<close>.
\<close>

datatype sys_event =
    Accept int
  | Fork int
  | Wait int int
  | WaitNull
  | Close fd
  | Perror string
  | Report string int
  | AssertFail string
  | Openpt int
  | Grantpt fd int
  | Unlockpt fd int
  | Setsid
  | Ptsname fd bool
  | OpenSlave int
  | Find fd string int
  | Push fd string int
  | Dup2 fd fd int
  | Closefrom fd
  | Chdir int
  | Execl string
  | StoreFd nat fd
  | PthreadCreate nat int "pthread option"
  | PthreadDetach pthread

text \<open>How a function leaves: it returns a value, the process exits, or its image is replaced.\<close>

datatype outcome = Return int | Exit int | Exec

subsection \<open>\<^verbatim>\<open>ps_relay\<close>\<close>

text \<open>
  Lines 259-280. \<open>create k\<close> is the result of the k-th \<^verbatim>\<open>pthread_create\<close>: \<open>None\<close> when it
  fails, otherwise the handle it stores.
\<close>

definition ps_relay ::
  "(nat \<Rightarrow> pthread option) \<Rightarrow> relay_shared \<Rightarrow> fd \<Rightarrow> fd \<Rightarrow> int \<times> relay_shared \<times> sys_event list" where
  "ps_relay create g peerfd mfd =
     (let g1 = g\<lparr>ps_relay_fds := (ps_relay_fds g)[0 := peerfd]\<rparr>;
          g2 = g1\<lparr>ps_relay_fds := (ps_relay_fds g1)[1 := mfd]\<rparr>;
          ev = [StoreFd 0 peerfd, StoreFd 1 mfd]
      in case create 0 of
           None \<Rightarrow> (-1, g2, ev @ [PthreadCreate 0 0 None, Perror ''child: pthread_create(1)''])
         | Some t0 \<Rightarrow>
            (let g3 = g2\<lparr>ps_relay_threads := (ps_relay_threads g2)[0 := t0]\<rparr>;
                 ev1 = ev @ [PthreadCreate 0 0 (Some t0)]
             in case create 1 of
                  None \<Rightarrow> (-1, g3, ev1 @ [PthreadCreate 1 1 None, Perror ''child: pthread_create(2)''])
                | Some t1 \<Rightarrow>
                   (let g4 = g3\<lparr>ps_relay_threads := (ps_relay_threads g3)[1 := t1]\<rparr>
                    in (0, g4, ev1 @ [PthreadCreate 1 1 (Some t1),
                                      PthreadDetach (ps_relay_threads g4 ! 0),
                                      PthreadDetach (ps_relay_threads g4 ! 1)]))))"

text \<open>The direction a worker copies in, once it has read the shared tables: source and destination.\<close>

definition worker_direction :: "relay_shared \<Rightarrow> int \<Rightarrow> relay_local \<Rightarrow> (fd \<times> fd) option" where
  "worker_direction g arg l0 = map_option (\<lambda>s. (sourcefd s, destfd s)) (ps_relay_one_entry g arg l0)"

text \<open>The handle a worker will cancel when it ends.\<close>

definition worker_cancels :: "relay_shared \<Rightarrow> int \<Rightarrow> relay_local \<Rightarrow> pthread option" where
  "worker_cancels g arg l0 = map_option other (ps_relay_one_entry g arg l0)"

text \<open>
  Stores into the shared tables and starts of workers, in a log; and the property that no
  store follows a start.
\<close>

fun is_store :: "sys_event \<Rightarrow> bool" where
  "is_store (StoreFd i v) = True"
| "is_store (PthreadCreate i a (Some t)) = True"
| "is_store e = False"

fun is_start :: "sys_event \<Rightarrow> bool" where
  "is_start (PthreadCreate i a (Some t)) = True"
| "is_start e = False"

fun is_fd_store :: "sys_event \<Rightarrow> bool" where
  "is_fd_store (StoreFd i v) = True"
| "is_fd_store e = False"

fun no_store_after_start :: "bool \<Rightarrow> sys_event list \<Rightarrow> bool" where
  "no_store_after_start started [] = True"
| "no_store_after_start started (e # es) =
     ((\<not> started \<or> \<not> is_store e) \<and> no_store_after_start (started \<or> is_start e) es)"

fun no_fd_store_after_start :: "bool \<Rightarrow> sys_event list \<Rightarrow> bool" where
  "no_fd_store_after_start started [] = True"
| "no_fd_store_after_start started (e # es) =
     ((\<not> started \<or> \<not> is_fd_store e) \<and> no_fd_store_after_start (started \<or> is_start e) es)"

text \<open>The stores a log makes into each table, by slot.\<close>

fun fd_stores :: "nat \<Rightarrow> sys_event list \<Rightarrow> fd list" where
  "fd_stores i [] = []"
| "fd_stores i (StoreFd j v # es) = (if i = j then [v] else []) @ fd_stores i es"
| "fd_stores i (e # es) = fd_stores i es"

fun handle_stores :: "nat \<Rightarrow> sys_event list \<Rightarrow> pthread list" where
  "handle_stores i [] = []"
| "handle_stores i (PthreadCreate j a (Some t) # es) = (if i = j then [t] else []) @ handle_stores i es"
| "handle_stores i (e # es) = handle_stores i es"

text \<open>
  The shared tables after the stores of a log, from the tables \<open>g\<close> before it. The tables a
  worker finds are those after the part of the log that precedes its first step.
\<close>

fun shared_after :: "relay_shared \<Rightarrow> sys_event list \<Rightarrow> relay_shared" where
  "shared_after g [] = g"
| "shared_after g (StoreFd i v # es) =
     shared_after (g\<lparr>ps_relay_fds := (ps_relay_fds g)[i := v]\<rparr>) es"
| "shared_after g (PthreadCreate i a (Some t) # es) =
     shared_after (g\<lparr>ps_relay_threads := (ps_relay_threads g)[i := t]\<rparr>) es"
| "shared_after g (e # es) = shared_after g es"

text \<open>The tables of \<open>demo_shared\<close> when the first worker has been created and the second not yet.\<close>

definition early_shared :: relay_shared where
  "early_shared = \<lparr>ps_relay_fds = [4, 3], ps_relay_threads = [1, 0]\<rparr>"

subsection \<open>\<^verbatim>\<open>ps_init_slavepty\<close>\<close>

text \<open>
  The slave side of the pty is a STREAMS device with a stack of modules, top first.
  \<^verbatim>\<open>ioctl(fd, I_FIND, name)\<close> returns 1 when the named module is on the stack and 0 when
  it is not; \<^verbatim>\<open>ioctl(fd, I_PUSH, name)\<close> puts the module on top. Either may fail.
\<close>

record slave_env =
  sys_ptsname :: bool
  sys_open :: int
  find_fails :: bool
  push_ret :: "string \<Rightarrow> int"
  dup2_ret :: "fd \<Rightarrow> int"

definition ioctl_find :: "slave_env \<Rightarrow> string list \<Rightarrow> string \<Rightarrow> int" where
  "ioctl_find env mods name = (if find_fails env then -1 else if name \<in> set mods then 1 else 0)"

definition ioctl_push :: "slave_env \<Rightarrow> string list \<Rightarrow> string \<Rightarrow> int \<times> string list" where
  "ioctl_push env mods name =
     (if push_ret env name < 0 then (push_ret env name, mods) else (push_ret env name, name # mods))"

text \<open>
  Lines 219-239, on the slave descriptor \<open>sfd\<close> whose stream holds \<open>mods\<close>. The result is
  \<open>-1\<close> where the function returns \<open>-1\<close>, and \<open>0\<close> where it goes on to line 241.
\<close>

definition ps_init_slavepty_ldisc ::
  "slave_env \<Rightarrow> fd \<Rightarrow> string list \<Rightarrow> int \<times> string list \<times> sys_event list" where
  "ps_init_slavepty_ldisc env sfd mods =
     (let setup = ioctl_find env mods ''ldterm'';
          ev = [Find sfd ''ldterm'' setup]
      in if setup < 0 then (-1, mods, ev @ [Perror ''child's child: ioctl(I_FIND, ldterm)''])
         else if setup = 0 then
           (case ioctl_push env mods ''ptem'' of (r1, m1) \<Rightarrow>
              if r1 < 0 then (-1, m1, ev @ [Push sfd ''ptem'' r1, Perror ''child's child: ioctl(I_PUSH, ptem)''])
              else (case ioctl_push env m1 ''ldterm'' of (r2, m2) \<Rightarrow>
                if r2 < 0
                then (-1, m2, ev @ [Push sfd ''ptem'' r1, Push sfd ''ldterm'' r2,
                                    Perror ''child's child: ioctl(I_PUSH, ldterm)''])
                else (case ioctl_push env m2 ''ttcompat'' of (r3, m3) \<Rightarrow>
                  if r3 < 0
                  then (-1, m3, ev @ [Push sfd ''ptem'' r1, Push sfd ''ldterm'' r2,
                                      Push sfd ''ttcompat'' r3, Perror ''child's child: ioctl(I_PUSH, ttcompat)''])
                  else (0, m3, ev @ [Push sfd ''ptem'' r1, Push sfd ''ldterm'' r2,
                                     Push sfd ''ttcompat'' r3]))))
         else (0, mods, ev))"

text \<open>Lines 201-250, the whole function.\<close>

definition ps_init_slavepty ::
  "slave_env \<Rightarrow> fd \<Rightarrow> string list \<Rightarrow> int \<times> string list \<times> sys_event list" where
  "ps_init_slavepty env mfd mods =
     (if \<not> sys_ptsname env then (-1, mods, [Ptsname mfd False, Perror ''child's child: ptsname''])
      else
       (let sfd = sys_open env;
            ev = [Ptsname mfd True, Close mfd, OpenSlave sfd]
        in if sfd < 0 then (-1, mods, ev @ [Perror ''child's child: open pty''])
           else (case ps_init_slavepty_ldisc env sfd mods of (r, mods1, ev1) \<Rightarrow>
             if r \<noteq> 0 then (-1, mods1, ev @ ev1)
             else if dup2_ret env 0 \<noteq> 0
               then (-1, mods1, ev @ ev1 @ [Dup2 sfd 0 (dup2_ret env 0), Perror ''child's child: dup2''])
             else if dup2_ret env 1 \<noteq> 1
               then (-1, mods1, ev @ ev1 @ [Dup2 sfd 0 (dup2_ret env 0), Dup2 sfd 1 (dup2_ret env 1),
                                           Perror ''child's child: dup2''])
             else if dup2_ret env 2 \<noteq> 2
               then (-1, mods1, ev @ ev1 @ [Dup2 sfd 0 (dup2_ret env 0), Dup2 sfd 1 (dup2_ret env 1),
                                           Dup2 sfd 2 (dup2_ret env 2), Perror ''child's child: dup2''])
             else (0, mods1, ev @ ev1 @ [Dup2 sfd 0 (dup2_ret env 0), Dup2 sfd 1 (dup2_ret env 1),
                                         Dup2 sfd 2 (dup2_ret env 2), Closefrom 3]))))"

text \<open>The pushes a log holds, and those of them that succeeded.\<close>

fun pushes :: "sys_event list \<Rightarrow> string list" where
  "pushes [] = []"
| "pushes (Push d name r # es) = name # pushes es"
| "pushes (e # es) = pushes es"

fun pushed :: "sys_event list \<Rightarrow> string list" where
  "pushed [] = []"
| "pushed (Push d name r # es) = (if r < 0 then [] else [name]) @ pushed es"
| "pushed (e # es) = pushed es"

subsection \<open>\<^verbatim>\<open>ps_server_connected\<close>\<close>

record session_env =
  sys_openpt :: int
  sys_grantpt :: int
  sys_unlockpt :: int
  sys_fork2 :: int
  sys_pthread_create :: "nat \<Rightarrow> pthread option"
  slave :: slave_env
  slave_mods :: "string list"
  sys_chdir :: int
  execl_fails :: bool

text \<open>
  Lines 148-195. In the process where the second \<^verbatim>\<open>fork\<close> returns a child, the function
  returns; where it returns 0 the process becomes the shell or exits.
\<close>

definition ps_server_connected ::
  "session_env \<Rightarrow> relay_shared \<Rightarrow> fd \<Rightarrow> outcome \<times> relay_shared \<times> sys_event list" where
  "ps_server_connected env g peerfd =
     (let mfd = sys_openpt env in
      if mfd < 0 then (Return (-1), g, [Openpt mfd, Perror ''child: posix_openpt''])
      else if sys_grantpt env \<noteq> 0
        then (Return (-1), g, [Openpt mfd, Grantpt mfd (sys_grantpt env), Perror ''child: grantpt''])
      else if sys_unlockpt env \<noteq> 0
        then (Return (-1), g, [Openpt mfd, Grantpt mfd (sys_grantpt env),
                               Unlockpt mfd (sys_unlockpt env), Perror ''child: unlockpt''])
      else
       (let childpid = sys_fork2 env;
            ev = [Openpt mfd, Grantpt mfd (sys_grantpt env), Unlockpt mfd (sys_unlockpt env),
                  Fork childpid]
        in if childpid < 0 then (Return (-1), g, ev @ [Perror ''child: fork''])
           else if childpid \<noteq> 0 then
             (case ps_relay (sys_pthread_create env) g peerfd mfd of (r, g1, ev1) \<Rightarrow>
                if r \<noteq> 0 then (Return (-1), g1, ev @ ev1)
                else (Return 0, g1, ev @ ev1 @ [WaitNull]))
           else
             (case ps_init_slavepty (slave env) mfd (slave_mods env) of (r, mods1, ev1) \<Rightarrow>
                if r \<noteq> 0 then (Exit 1, g, ev @ [Close peerfd, Setsid] @ ev1)
                else
                 (let cd = (if sys_chdir env \<noteq> 0
                            then [Chdir (sys_chdir env), Perror ''child: WARN: chdir'']
                            else [Chdir (sys_chdir env)])
                  in if execl_fails env
                     then (Exit 1, g, ev @ [Close peerfd, Setsid] @ ev1 @ cd @
                             [Execl ''/bin/bash'', Perror ''child's child: exec''])
                     else (Exec, g, ev @ [Close peerfd, Setsid] @ ev1 @ cd @ [Execl ''/bin/bash''])))))"

subsection \<open>\<^verbatim>\<open>ps_server_run\<close>\<close>

text \<open>
  The environment of the accept loop: what the k-th \<^verbatim>\<open>accept\<close>, \<^verbatim>\<open>fork\<close> and
  \<^verbatim>\<open>wait\<close> return (the last with the status it stores), and what a process that finds
  itself the child meets in \<^verbatim>\<open>ps_server_connected\<close>.
\<close>

record server_env =
  sys_accept :: "nat \<Rightarrow> int"
  sys_fork :: "nat \<Rightarrow> int"
  sys_wait :: "nat \<Rightarrow> int \<times> int"
  session :: session_env

text \<open>
  Where the process is: at the loop test of line 115, returned from \<^verbatim>\<open>ps_server_run\<close>,
  gone as the child of line 132, or stopped by the assertion of line 126.
\<close>

datatype server_at = Accepting | ServerReturned | ChildGone outcome | ServerAborted

record server_state =
  ps_sockfd :: fd
  peerfd :: int
  pid :: int
  newpid :: int
  status :: int
  accepts :: nat
  forks :: nat
  waits :: nat
  relay_state :: relay_shared
  slog :: "sys_event list"
  sat :: server_at

definition slog_events :: "sys_event list \<Rightarrow> server_state \<Rightarrow> server_state" where
  "slog_events es s = s\<lparr>slog := slog s @ es\<rparr>"

text \<open>Lines 135-138: after the loop.\<close>

definition server_exit :: "server_state \<Rightarrow> server_state" where
  "server_exit s =
     (let s1 = (if peerfd s < 0 then slog_events [Perror ''accept''] s else s)
      in (slog_events [Close (ps_sockfd s1)] s1)\<lparr>sat := ServerReturned\<rparr>)"

text \<open>Lines 131-132: the child closes the listening socket and exits with the session's result.\<close>

definition server_child :: "server_env \<Rightarrow> server_state \<Rightarrow> server_state" where
  "server_child env s =
     (case ps_server_connected (session env) (relay_state s) (peerfd s) of
        (out, g, ev) \<Rightarrow>
          (slog_events (Close (ps_sockfd s) # ev) s)
            \<lparr>relay_state := g,
             sat := ChildGone (case out of Return v \<Rightarrow> Exit v | Exit v \<Rightarrow> Exit v | Exec \<Rightarrow> Exec)\<rparr>)"

text \<open>Lines 121-129: the parent waits for the child.\<close>

definition server_parent :: "server_env \<Rightarrow> server_state \<Rightarrow> server_state" where
  "server_parent env s =
     (let w = sys_wait env (waits s);
          s1 = slog_events [Close (peerfd s), Report ''forked child'' (pid s), Wait (fst w) (snd w)]
                 (s\<lparr>newpid := fst w, status := snd w, waits := Suc (waits s)\<rparr>)
      in if newpid s1 = pid s1
         then slog_events [Report ''child exited with status'' (status s1)] s1
         else (slog_events [AssertFail ''newpid == pid''] s1)\<lparr>sat := ServerAborted\<rparr>)"

text \<open>Lines 115-133: the loop test and one pass through the body.\<close>

definition server_step :: "server_env \<Rightarrow> server_state \<Rightarrow> server_state" where
  "server_step env s =
     (case sat s of
        Accepting \<Rightarrow>
          (let a = sys_accept env (accepts s);
               s1 = slog_events [Accept a] (s\<lparr>peerfd := a, accepts := Suc (accepts s)\<rparr>)
           in if peerfd s1 \<ge> 0 then
                (let p = sys_fork env (forks s1);
                     s2 = slog_events [Fork p] (s1\<lparr>pid := p, forks := Suc (forks s1)\<rparr>)
                 in if pid s2 < 0 then server_exit (slog_events [Perror ''fork''] s2)
                    else if pid s2 \<noteq> 0 then server_parent env s2
                    else server_child env s2)
              else server_exit s1)
      | ServerReturned \<Rightarrow> s
      | ChildGone out \<Rightarrow> s
      | ServerAborted \<Rightarrow> s)"

text \<open>The state in which \<^verbatim>\<open>ps_server_run\<close> is entered, its locals holding what \<open>s0\<close> does.\<close>

definition server_entry :: "fd \<Rightarrow> server_state \<Rightarrow> server_state" where
  "server_entry sockfd s0 =
     s0\<lparr>ps_sockfd := sockfd, accepts := 0, forks := 0, waits := 0,
        relay_state := relay_shared0, slog := [], sat := Accepting\<rparr>"

definition server_run :: "server_env \<Rightarrow> nat \<Rightarrow> server_state \<Rightarrow> server_state" where
  "server_run env n s = (server_step env ^^ n) s"


text \<open>
  One session at a time, as a monitor that reads a log: a connection may be accepted only
  when no child is outstanding; a successful \<^verbatim>\<open>fork\<close> in the parent makes its child
  outstanding, and only a \<^verbatim>\<open>wait\<close> that returns that child's pid clears it.
\<close>

datatype serial_state = Idle | Accepted | Outstanding int | Overlap

definition serial_event :: "serial_state \<Rightarrow> sys_event \<Rightarrow> serial_state" where
  "serial_event st e =
     (case e of
        Accept a \<Rightarrow> (case st of Idle \<Rightarrow> (if a \<ge> 0 then Accepted else Idle)
                             | Accepted \<Rightarrow> Overlap
                             | Outstanding p \<Rightarrow> Overlap
                             | Overlap \<Rightarrow> Overlap)
      | Fork p \<Rightarrow> (case st of Accepted \<Rightarrow> (if p > 0 then Outstanding p else Accepted)
                           | Idle \<Rightarrow> Idle
                           | Outstanding q \<Rightarrow> Outstanding q
                           | Overlap \<Rightarrow> Overlap)
      | Wait q x \<Rightarrow> (case st of Outstanding p \<Rightarrow> (if q = p then Idle else Outstanding p)
                             | Idle \<Rightarrow> Idle
                             | Accepted \<Rightarrow> Accepted
                             | Overlap \<Rightarrow> Overlap)
      | _ \<Rightarrow> st)"

definition serial_monitor :: "sys_event list \<Rightarrow> serial_state" where
  "serial_monitor es = foldl serial_event Idle es"

text \<open>The connections a log accepts.\<close>

fun accepted :: "sys_event list \<Rightarrow> int list" where
  "accepted [] = []"
| "accepted (Accept a # es) = a # accepted es"
| "accepted (e # es) = accepted es"

subsection \<open>Predicates of the proofs\<close>

text \<open>
  The last calls of a worker that has returned: the cancellation, and before it, after
  end-of-stream, the close of the destination.
\<close>

definition exit_inv :: "relay_local \<Rightarrow> bool" where
  "exit_inv s =
     (if at s = Returned then
        take 1 (rev (trace s)) = [EvCancel (other s)] \<and>
        (if nread s = 0 then take 2 (rev (trace s)) = [EvCancel (other s), EvClose (destfd s)]
         else True)
      else if at s = AtWrite then 0 < nread s
      else True)"

text \<open>The calls of pty allocation, and the reports of their failure.\<close>

fun alloc_call :: "sys_event \<Rightarrow> bool" where
  "alloc_call (Openpt r) = True"
| "alloc_call (Grantpt d r) = True"
| "alloc_call (Unlockpt d r) = True"
| "alloc_call (Perror m) = True"
| "alloc_call e = False"




text \<open>What the monitor of sessions says of a state of the accept loop.\<close>

definition serial_inv :: "server_state \<Rightarrow> bool" where
  "serial_inv s =
     (if sat s = Accepting then serial_monitor (slog s) = Idle
      else serial_monitor (slog s) \<noteq> Overlap)"

subsection \<open>Concrete scenarios\<close>

text \<open>
  A session as the server usually meets it: the listening socket is descriptor 3, the
  connection 4, and the pty master takes 3 once the child has closed the listening socket.
  The peer sends three bytes and closes; the pty takes at most two bytes per write.
\<close>

definition demo_shared :: relay_shared where
  "demo_shared = \<lparr>ps_relay_fds = [4, 3], ps_relay_threads = [1, 2]\<rparr>"

definition demo_frame :: relay_local where
  "demo_frame = \<lparr>sourcefd = 0, destfd = 0, other = 0, buf = replicate 512 0, nread = 0,
     towrite = 0, nwritten = 0, reads = 0, writes = 0, trace = [], at = AtRead\<rparr>"

definition demo_env :: relay_env where
  "demo_env = \<lparr>sys_read = (\<lambda>k. if k = 0 then ReadOk [104, 105, 10] else ReadOk []),
     sys_write = (\<lambda>k c. min c 2)\<rparr>"

text \<open>The same source, and a destination that accepts nothing and reports no error.\<close>

definition stuck_env :: relay_env where
  "stuck_env = \<lparr>sys_read = (\<lambda>k. if k = 0 then ReadOk [104, 105, 10] else ReadOk []),
     sys_write = (\<lambda>k c. 0)\<rparr>"

text \<open>The worker of \<open>demo_shared\<close> with argument 0, on entry and after its first read.\<close>

definition demo_start :: relay_local where
  "demo_start = demo_frame\<lparr>sourcefd := 4, destfd := 3, other := 2\<rparr>"

definition demo_mid :: relay_local where
  "demo_mid = demo_start\<lparr>nread := 3, towrite := 3, reads := 1,
     buf := [104, 105, 10] @ replicate 509 0,
     trace := [EvRead 4 (ReadOk [104, 105, 10])], at := AtWrite\<rparr>"

text \<open>
  A server started with one more descriptor open: the listening socket is 4, the connection
  5, and the pty master takes 4.
\<close>

definition shifted_shared :: relay_shared where
  "shifted_shared = \<lparr>ps_relay_fds = [5, 4], ps_relay_threads = [1, 2]\<rparr>"

text \<open>A source already at end-of-stream, a destination that takes everything.\<close>

definition eof_env :: relay_env where
  "eof_env = \<lparr>sys_read = (\<lambda>k. ReadOk []), sys_write = (\<lambda>k c. c)\<rparr>"

text \<open>Thread creation that succeeds, the k-th call storing the handle \<open>k + 1\<close>.\<close>

definition demo_create :: "nat \<Rightarrow> pthread option" where
  "demo_create k = Some (Suc k)"

text \<open>A slave stream on which pushing \<open>ldterm\<close> fails and every other call succeeds.\<close>

definition ldterm_fail_slave :: slave_env where
  "ldterm_fail_slave = \<lparr>sys_ptsname = True, sys_open = 3, find_fails = False,
     push_ret = (\<lambda>m. if m = ''ldterm'' then -1 else 0), dup2_ret = (\<lambda>d. d)\<rparr>"

text \<open>A slave stream on which every call succeeds.\<close>

definition slave_ok :: slave_env where
  "slave_ok = \<lparr>sys_ptsname = True, sys_open = 3, find_fails = False, push_ret = (\<lambda>m. 0),
     dup2_ret = (\<lambda>d. d)\<rparr>"

text \<open>A session in which the pty master opens as descriptor 3 and \<^verbatim>\<open>grantpt\<close> fails.\<close>

definition grant_fail_env :: session_env where
  "grant_fail_env = \<lparr>sys_openpt = 3, sys_grantpt = -1, sys_unlockpt = 0, sys_fork2 = 200,
     sys_pthread_create = demo_create, slave = slave_ok, slave_mods = [], sys_chdir = 0,
     execl_fails = False\<rparr>"

text \<open>A session in which everything succeeds, seen from the process that runs the relay.\<close>

definition session_ok :: session_env where
  "session_ok = \<lparr>sys_openpt = 3, sys_grantpt = 0, sys_unlockpt = 0, sys_fork2 = 200,
     sys_pthread_create = demo_create, slave = slave_ok, slave_mods = [], sys_chdir = 0,
     execl_fails = False\<rparr>"

text \<open>The locals of \<^verbatim>\<open>ps_server_run\<close> before the function is entered.\<close>

definition server_frame :: server_state where
  "server_frame = \<lparr>ps_sockfd = 3, peerfd = 0, pid = 0, newpid = 0, status = 0, accepts = 0,
     forks = 0, waits = 0, relay_state = relay_shared0, slog = [], sat = Accepting\<rparr>"


definition serving_env :: server_env where
  "serving_env = \<lparr>sys_accept = (\<lambda>k. 4), sys_fork = (\<lambda>k. 100 + int k),
     sys_wait = (\<lambda>k. (100 + int k, 256 * int k)), session = session_ok\<rparr>"

definition child_env :: server_env where
  "child_env = \<lparr>sys_accept = (\<lambda>k. 4), sys_fork = (\<lambda>k. 0), sys_wait = (\<lambda>k. (0, 0)),
     session = grant_fail_env\<rparr>"








section \<open>Properties\<close>

subsection \<open>Logs and single steps of a worker\<close>

lemmas relay_defs =
  relay_step_def read_step_def write_step_def after_write_loop_def relay_exit_def log_event_def

lemma delivered_append: "delivered (xs @ ys) = delivered xs @ delivered ys"
  by (induction xs rule: delivered.induct) simp_all

lemma received_append: "received (xs @ ys) = received xs @ received ys"
  by (induction xs rule: received.induct) simp_all

lemma copy_protocol_append: "copy_protocol (es @ fs) = foldl copy_event (copy_protocol es) fs"
  by (simp add: copy_protocol_def)

lemma relay_run_Suc: "relay_run env (Suc n) s = relay_step env (relay_run env n s)"
  by (simp add: relay_run_def)

lemma relay_run_Suc_right: "relay_run env (Suc n) s = relay_run env n (relay_step env s)"
  by (simp add: relay_run_def funpow_swap1)

lemma relay_run_add: "relay_run env (m + n) s = relay_run env m (relay_run env n s)"
  by (simp add: relay_run_def funpow_add)

lemma while_option_None_iff: "while_option b c s = None \<longleftrightarrow> (\<forall>k. b ((c ^^ k) s))"
  by (simp add: while_option_def)

text \<open>The slice a write is handed is the unwritten end of the chunk.\<close>

lemma slice_eq:
  assumes "0 \<le> t" "t \<le> r"
  shows "take (nat t) (drop (nat (r - t)) xs) = drop (nat (r - t)) (take (nat r) xs)"
proof -
  have "nat r - nat (r - t) = nat t" using assms by simp
  then show ?thesis by (simp add: drop_take)
qed

lemma pending_after_write:
  assumes "0 \<le> n" "n \<le> t" "t \<le> r"
  shows "drop (nat (r - (t - n))) xs = drop (nat n) (drop (nat (r - t)) xs)"
proof -
  have "nat (r - (t - n)) = nat n + nat (r - t)" using assms by simp
  then show ?thesis by simp
qed

subsection \<open>Invariants of the copy loop\<close>

lemma bounds_inv_step:
  assumes "bounds_inv s" "read_contract env" "write_contract env"
  shows "bounds_inv (relay_step env s)"
proof (cases "at s")
  case AtRead
  have rc: "read_ret (sys_read env (reads s)) \<le> 512"
    using assms(2) by (simp add: read_contract_def)
  show ?thesis
  proof (cases "sys_read env (reads s)")
    case ReadErr
    with AtRead assms(1) show ?thesis
      by (simp add: bounds_inv_def relay_defs Let_def)
  next
    case (ReadOk bs)
    with AtRead assms(1) rc show ?thesis
      by (auto simp add: bounds_inv_def relay_defs Let_def)
  qed
next
  case AtWrite
  have wc: "sys_write env (writes s) (towrite s) \<le> towrite s"
    using assms(3) by (simp add: write_contract_def)
  with AtWrite assms(1) show ?thesis
    by (auto simp add: bounds_inv_def relay_defs Let_def)
next
  case Returned
  with assms(1) show ?thesis by (simp add: relay_step_def)
next
  case Aborted
  with assms(1) show ?thesis by (simp add: relay_step_def)
qed


lemma copy_inv_step:
  assumes "copy_inv s" "bounds_inv s" "write_contract env"
  shows "copy_inv (relay_step env s)"
proof (cases "at s")
  case AtRead
  show ?thesis
  proof (cases "sys_read env (reads s)")
    case ReadErr
    with AtRead assms(1) show ?thesis
      by (simp add: copy_inv_def copy_abs_def pending_def relay_defs Let_def
          delivered_append received_append copy_protocol_append)
  next
    case (ReadOk bs)
    with AtRead assms(1) show ?thesis
      by (auto simp add: copy_inv_def copy_abs_def pending_def relay_defs Let_def
          delivered_append received_append copy_protocol_append)
  qed
next
  case AtWrite
  from assms(2) AtWrite have b: "0 \<le> towrite s" "towrite s \<le> nread s" "0 < nread s"
    "nread s \<le> 512" "length (buf s) = 512"
    by (simp_all add: bounds_inv_def)
  have p: "pending s = drop (nat (nread s - towrite s)) (take (nat (nread s)) (buf s))"
    using AtWrite b by (simp add: pending_def)
  have len: "int (length (pending s)) = towrite s"
    using b by (simp add: p)
  have bytes: "take (nat (towrite s)) (drop (nat (nread s - towrite s)) (buf s)) = pending s"
    using b by (simp add: p slice_eq)
  define n where "n = sys_write env (writes s) (towrite s)"
  have wc: "n \<le> towrite s"
    using assms(3) by (simp add: write_contract_def n_def)
  show ?thesis
  proof (cases "towrite s > 0")
    case False
    with b have z: "towrite s = 0" by simp
    then have "pending s = []" using len by simp
    with AtWrite z assms(1) show ?thesis
      by (simp add: copy_inv_def copy_abs_def relay_defs pending_def)
  next
    case True
    then have ne: "pending s \<noteq> []" using len by auto
    show ?thesis
    proof (cases "n < 0")
      case True
      with AtWrite \<open>towrite s > 0\<close> assms(1) b ne bytes show ?thesis
        by (simp add: copy_inv_def copy_abs_def relay_defs Let_def n_def [symmetric]
            delivered_append received_append copy_protocol_append pending_def)
    next
      case False
      then have n0: "0 \<le> n" by simp
      have p': "drop (nat (nread s - (towrite s - n))) (take (nat (nread s)) (buf s)) = drop (nat n) (pending s)"
        using n0 wc b by (simp add: p pending_after_write)
      define s' where "s' = relay_step env s"
      have st: "s' = s\<lparr>nwritten := n, writes := Suc (writes s),
          trace := trace s @ [EvWrite (destfd s) (nread s - towrite s) (towrite s) (pending s) n],
          towrite := towrite s - n\<rparr>"
        using AtWrite \<open>towrite s > 0\<close> False bytes
        by (simp add: s'_def relay_defs Let_def n_def [symmetric])
      have pend': "pending s' = drop (nat n) (pending s)"
        using AtWrite b p' by (simp add: st pending_def)
      have "copy_protocol (trace s') = copy_abs s'"
        using assms(1) AtWrite ne False pend'
        by (simp add: copy_inv_def copy_abs_def st copy_protocol_append)
      moreover have "delivered (trace s') @ pending s' = received (trace s')"
        using assms(1) False
        by (simp add: pend') (simp add: copy_inv_def st delivered_append received_append)
      ultimately show ?thesis
        by (simp add: copy_inv_def s'_def)
    qed
  qed
next
  case Returned
  with assms(1) show ?thesis by (simp add: relay_step_def)
next
  case Aborted
  with assms(1) show ?thesis by (simp add: relay_step_def)
qed


lemma relay_invs_run:
  assumes "bounds_inv s" "copy_inv s" "read_contract env" "write_contract env"
  shows "bounds_inv (relay_run env n s) \<and> copy_inv (relay_run env n s)"
proof (induction n)
  case 0
  show ?case using assms by (simp add: relay_run_def)
next
  case (Suc n)
  then show ?case
    using assms(3,4) by (simp add: relay_run_Suc bounds_inv_step copy_inv_step)
qed

lemma relay_invs_entry:
  assumes "ps_relay_one_entry g arg l0 = Some s0" "length (buf l0) = 512"
  shows "bounds_inv s0 \<and> copy_inv s0"
  using assms
  by (auto simp add: ps_relay_one_entry_def bounds_inv_def copy_inv_def copy_abs_def
      copy_protocol_def pending_def split: option.splits)

lemma ps_relay_one_result:
  assumes "ps_relay_one env g arg l0 = Some t"
  shows "\<exists>s0 n. ps_relay_one_entry g arg l0 = Some s0 \<and> t = relay_run env n s0 \<and> \<not> relay_running t"
proof -
  from assms obtain s0 where e: "ps_relay_one_entry g arg l0 = Some s0"
    and w: "while_option relay_running (relay_step env) s0 = Some t"
    by (auto simp add: ps_relay_one_def split: option.splits)
  from while_option_stop2 [OF w] obtain k where "t = (relay_step env ^^ k) s0" "\<not> relay_running t"
    by blast
  with e show ?thesis by (auto simp add: relay_run_def)
qed

subsection \<open>What a worker keeps, what a step logs, and progress\<close>

lemma exit_inv_step:
  assumes "exit_inv s"
  shows "exit_inv (relay_step env s) \<and> sourcefd (relay_step env s) = sourcefd s \<and>
         destfd (relay_step env s) = destfd s \<and> other (relay_step env s) = other s"
proof (cases "at s")
  case AtRead
  then show ?thesis
    by (cases "sys_read env (reads s)") (auto simp add: exit_inv_def relay_defs Let_def)
next
  case AtWrite
  with assms show ?thesis
    by (auto simp add: exit_inv_def relay_defs Let_def)
next
  case Returned
  with assms show ?thesis by (simp add: relay_step_def)
next
  case Aborted
  with assms show ?thesis by (simp add: relay_step_def)
qed

lemma relay_one_exit_path:
  assumes "ps_relay_one_entry g arg l0 = Some s0"
  shows "exit_inv (relay_run env n s0) \<and> sourcefd (relay_run env n s0) = sourcefd s0 \<and>
         destfd (relay_run env n s0) = destfd s0 \<and> other (relay_run env n s0) = other s0"
proof (induction n)
  case 0
  from assms have "at s0 = AtRead"
    by (auto simp add: ps_relay_one_entry_def split: option.splits)
  then show ?case by (simp add: relay_run_def exit_inv_def)
next
  case (Suc n)
  with exit_inv_step [of "relay_run env n s0" env] show ?case
    by (simp add: relay_run_Suc)
qed

lemma event_on_step:
  assumes "list_all (event_on (sourcefd s) (destfd s)) (trace s)"
  shows "list_all (event_on (sourcefd s) (destfd s)) (trace (relay_step env s))"
proof (cases "at s")
  case AtRead
  with assms show ?thesis
    by (cases "sys_read env (reads s)") (auto simp add: relay_defs Let_def)
next
  case AtWrite
  with assms show ?thesis by (auto simp add: relay_defs Let_def)
next
  case Returned
  with assms show ?thesis by (simp add: relay_step_def)
next
  case Aborted
  with assms show ?thesis by (simp add: relay_step_def)
qed

lemma event_on_run:
  assumes "ps_relay_one_entry g arg l0 = Some s0"
  shows "list_all (event_on (sourcefd s0) (destfd s0)) (trace (relay_run env n s0))"
proof (induction n)
  case 0
  from assms have "trace s0 = []"
    by (auto simp add: ps_relay_one_entry_def split: option.splits)
  then show ?case by (simp add: relay_run_def)
next
  case (Suc n)
  from relay_one_exit_path [OF assms, of env n]
  have f: "sourcefd (relay_run env n s0) = sourcefd s0" "destfd (relay_run env n s0) = destfd s0"
    by simp_all
  from Suc event_on_step [of "relay_run env n s0" env] show ?case
    by (simp add: relay_run_Suc f)
qed

lemma read_step_logs:
  assumes "at s = AtRead"
  shows "take (Suc (length (trace s))) (trace (relay_step env s)) =
     trace s @ [EvRead (sourcefd s) (sys_read env (reads s))]"
  using assms
  by (cases "sys_read env (reads s)") (auto simp add: relay_defs Let_def)

lemma write_step_logs:
  assumes "at s = AtWrite" "0 < towrite s"
  shows "take (Suc (length (trace s))) (trace (relay_step env s)) =
     trace s @ [EvWrite (destfd s) (nread s - towrite s) (towrite s)
       (take (nat (towrite s)) (drop (nat (nread s - towrite s)) (buf s)))
       (sys_write env (writes s) (towrite s))]"
  using assms by (auto simp add: relay_defs Let_def)

lemma write_slice_pending:
  assumes "bounds_inv s" "at s = AtWrite"
  shows "take (nat (towrite s)) (drop (nat (nread s - towrite s)) (buf s)) = pending s"
    and "int (length (pending s)) = towrite s"
proof -
  from assms have b: "0 \<le> towrite s" "towrite s \<le> nread s" "0 < nread s"
    "nread s \<le> 512" "length (buf s) = 512"
    by (simp_all add: bounds_inv_def)
  have p: "pending s = drop (nat (nread s - towrite s)) (take (nat (nread s)) (buf s))"
    using assms(2) b by (simp add: pending_def)
  show "take (nat (towrite s)) (drop (nat (nread s - towrite s)) (buf s)) = pending s"
    using b by (simp add: p slice_eq)
  show "int (length (pending s)) = towrite s"
    using b by (simp add: p)
qed

lemma flush_progress:
  assumes "\<forall>k c. 0 < c \<longrightarrow> sys_write env k c < 0 \<or> 1 \<le> sys_write env k c"
    and "read_contract env" "write_contract env"
    and "bounds_inv s" "copy_inv s" "at s = AtWrite"
  shows "\<exists>m. (at (relay_run env m s) = AtRead \<and>
              delivered (trace (relay_run env m s)) = received (trace s)) \<or>
             (at (relay_run env m s) = Returned \<and> nwritten (relay_run env m s) < 0)"
  using assms(4-6)
proof (induction "nat (towrite s)" arbitrary: s rule: less_induct)
  case less
  note len = write_slice_pending(2) [OF less.prems(1,3)]
  show ?case
  proof (cases "0 < towrite s")
    case False
    have "0 \<le> int (length (pending s))" by simp
    with len False have tz: "towrite s = 0" by linarith
    with len have pz: "pending s = []" by simp
    from less.prems(3) tz have "at (relay_step env s) = AtRead" "trace (relay_step env s) = trace s"
      by (simp_all add: relay_defs)
    moreover from less.prems(2) pz have "delivered (trace s) = received (trace s)"
      by (simp add: copy_inv_def)
    ultimately have "at (relay_run env (Suc 0) s) = AtRead \<and>
        delivered (trace (relay_run env (Suc 0) s)) = received (trace s)"
      by (simp add: relay_run_def)
    then show ?thesis by blast
  next
    case True
    define n where "n = sys_write env (writes s) (towrite s)"
    from assms(1) True have "n < 0 \<or> 1 \<le> n" by (simp add: n_def)
    then show ?thesis
    proof
      assume "n < 0"
      with less.prems(3) True have "at (relay_step env s) = Returned" "nwritten (relay_step env s) < 0"
        by (simp_all add: relay_defs Let_def n_def [symmetric])
      then have "at (relay_run env (Suc 0) s) = Returned \<and> nwritten (relay_run env (Suc 0) s) < 0"
        by (simp add: relay_run_def)
      then show ?thesis by blast
    next
      assume n1: "1 \<le> n"
      define u where "u = relay_step env s"
      from n1 less.prems(3) True have st: "at u = AtWrite" "towrite u = towrite s - n"
        "trace u = trace s @ [EvWrite (destfd s) (nread s - towrite s) (towrite s)
           (take (nat (towrite s)) (drop (nat (nread s - towrite s)) (buf s))) n]"
        by (simp_all add: u_def relay_defs Let_def n_def [symmetric])
      have inv: "bounds_inv u" "copy_inv u"
        using less.prems(1,2) assms(2,3) by (simp_all add: u_def bounds_inv_step copy_inv_step)
      from st(2) True n1 have "nat (towrite u) < nat (towrite s)" by simp
      from less.hyps [OF this inv st(1)] obtain m
        where m: "(at (relay_run env m u) = AtRead \<and>
              delivered (trace (relay_run env m u)) = received (trace u)) \<or>
             (at (relay_run env m u) = Returned \<and> nwritten (relay_run env m u) < 0)"
        by blast
      have "received (trace u) = received (trace s)"
        by (simp add: st(3) received_append)
      with m have "(at (relay_run env (Suc m) s) = AtRead \<and>
              delivered (trace (relay_run env (Suc m) s)) = received (trace s)) \<or>
             (at (relay_run env (Suc m) s) = Returned \<and> nwritten (relay_run env (Suc m) s) < 0)"
        by (simp add: relay_run_Suc_right u_def)
      then show ?thesis by blast
    qed
  qed
qed

subsection \<open>Evaluating the scenarios\<close>

lemma demo_entry: "ps_relay_one_entry demo_shared 0 demo_frame = Some demo_start"
  by (simp add: ps_relay_one_entry_def demo_shared_def demo_frame_def demo_start_def table_get_def
      other_index_def INT_MAX_def signed_modulo_int_def)

lemma demo_frame_buf: "length (buf demo_frame) = 512"
  by (simp add: demo_frame_def)

lemma demo_read_contract: "read_contract demo_env"
  by (simp add: read_contract_def demo_env_def)

lemma demo_write_contract: "write_contract demo_env"
  by (simp add: write_contract_def demo_env_def)

lemma demo_run_1: "relay_run demo_env (Suc 0) demo_start = demo_mid"
  by (simp add: relay_run_def relay_defs demo_env_def demo_start_def demo_mid_def demo_frame_def
      Let_def)

lemma demo_run_2:
  "relay_run demo_env (Suc (Suc 0)) demo_start =
     demo_mid\<lparr>nwritten := 2, writes := 1, towrite := 1,
       trace := [EvRead 4 (ReadOk [104, 105, 10]), EvWrite 3 0 3 [104, 105, 10] 2]\<rparr>"
  by (subst relay_run_Suc, subst demo_run_1)
    (simp add: relay_defs demo_env_def demo_mid_def demo_start_def demo_frame_def Let_def)

lemma demo_run_5:
  "trace (relay_run demo_env 5 demo_start) =
     [EvRead 4 (ReadOk [104, 105, 10]), EvWrite 3 0 3 [104, 105, 10] 2, EvWrite 3 2 1 [10] 1,
      EvRead 4 (ReadOk []), EvClose 3, EvCancel 2]"
  "at (relay_run demo_env 5 demo_start) = Returned"
  "nread (relay_run demo_env 5 demo_start) = 0"
  by (simp_all add: relay_run_def eval_nat_numeral relay_defs demo_env_def demo_start_def
      demo_frame_def Let_def)

lemma demo_returns:
  "ps_relay_one demo_env demo_shared 0 demo_frame = Some (relay_run demo_env 5 demo_start)"
proof -
  have "ps_relay_one demo_env demo_shared 0 demo_frame =
      while_option relay_running (relay_step demo_env) demo_start"
    by (simp add: ps_relay_one_def demo_entry)
  also have "\<dots> = Some (relay_run demo_env 5 demo_start)"
    by (simp add: while_option_unfold [of relay_running] relay_running_def relay_run_def
        eval_nat_numeral relay_defs demo_env_def demo_start_def demo_frame_def Let_def)
  finally show ?thesis .
qed

subsection \<open>The claims about the copy loop\<close>

text \<open>
  C9. Let the worker be entered with its 512-byte buffer, and let every \<^verbatim>\<open>read\<close> store at
  most 512 bytes and every \<^verbatim>\<open>write\<close> return at most the count it was given. Then after
  any number of steps: the assertion of line 314 has not failed; every write so far was
  handed an offset \<open>off \<ge> 0\<close> and a count \<open>cnt > 0\<close> with \<open>off + cnt \<le> 512\<close>, and found
  \<open>cnt\<close> bytes there; and at the test of the inner loop
  \<open>0 \<le> towrite \<le> nread \<le> 512\<close>. A worker that ends, ends by returning.
\<close>

theorem relay_one_bounds:
  assumes "ps_relay_one_entry g arg l0 = Some s0" "length (buf l0) = 512"
    and "read_contract env" "write_contract env"
  shows "at (relay_run env n s0) \<noteq> Aborted \<and>
         list_all write_in_bounds (trace (relay_run env n s0)) \<and>
         (at (relay_run env n s0) = AtWrite \<longrightarrow>
            0 \<le> towrite (relay_run env n s0) \<and>
            towrite (relay_run env n s0) \<le> nread (relay_run env n s0) \<and>
            nread (relay_run env n s0) \<le> 512) \<and>
         (\<forall>t. ps_relay_one env g arg l0 = Some t \<longrightarrow> at t = Returned)"
proof -
  have inv: "bounds_inv (relay_run env k s0)" for k
    using relay_invs_entry [OF assms(1,2)] relay_invs_run [of s0 env k] assms(3,4) by simp
  have fin: "at t = Returned" if "ps_relay_one env g arg l0 = Some t" for t
  proof -
    from ps_relay_one_result [OF that] assms(1) obtain k
      where "t = relay_run env k s0" "\<not> relay_running t" by auto
    with inv [of k] show ?thesis
      by (cases "at t") (simp_all add: relay_running_def bounds_inv_def)
  qed
  from inv [of n] fin show ?thesis
    by (simp add: bounds_inv_def split: if_splits)
qed

theorem relay_one_bounds_witness:
  "ps_relay_one_entry demo_shared 0 demo_frame = Some demo_start \<and>
   length (buf demo_frame) = 512 \<and> read_contract demo_env \<and> write_contract demo_env \<and>
   at (relay_run demo_env (Suc (Suc 0)) demo_start) = AtWrite \<and>
   0 \<le> towrite (relay_run demo_env (Suc (Suc 0)) demo_start) \<and>
   towrite (relay_run demo_env (Suc (Suc 0)) demo_start)
     \<le> nread (relay_run demo_env (Suc (Suc 0)) demo_start) \<and>
   nread (relay_run demo_env (Suc (Suc 0)) demo_start) \<le> 512 \<and>
   list_all write_in_bounds (trace (relay_run demo_env (Suc (Suc 0)) demo_start)) \<and>
   ps_relay_one demo_env demo_shared 0 demo_frame = Some (relay_run demo_env 5 demo_start) \<and>
   at (relay_run demo_env 5 demo_start) = Returned"
proof -
  have a: "at (relay_run demo_env (Suc (Suc 0)) demo_start) = AtWrite"
    by (simp add: demo_run_2 demo_mid_def)
  from relay_one_bounds [OF demo_entry demo_frame_buf demo_read_contract demo_write_contract,
      of "Suc (Suc 0)"] a demo_returns
  show ?thesis
    using demo_entry demo_frame_buf demo_read_contract demo_write_contract by blast
qed

text \<open>
  C2. Under the same assumptions, after any number of steps the log of the worker follows
  the copying discipline (no chunk is read before the previous one is flushed, every write
  is handed exactly the unwritten rest of the current chunk, nothing is read or written
  after a write error), and the bytes the destination took, followed by the rest of the
  current chunk still to write, are the bytes read, in order. When the worker has returned
  after end-of-stream or a read error, the destination took exactly the bytes read.
  Every read in the log is from the worker's source, every write and close on its
  destination. A worker about to read does read; a worker with part of a chunk left does
  call \<^verbatim>\<open>write\<close> next, with exactly that part. And if every write that is asked for at least
  one byte returns an error or at least 1, a worker in the inner loop goes on until either
  all the bytes read so far are delivered and it is about to read again, or a write has
  returned an error and it has returned.
\<close>

theorem relay_one_copies:
  assumes "ps_relay_one_entry g arg l0 = Some s0" "length (buf l0) = 512"
    and "read_contract env" "write_contract env"
  shows "copy_protocol (trace (relay_run env n s0)) =
           (if at (relay_run env n s0) = Returned then Halted else Copying (pending (relay_run env n s0))) \<and>
         delivered (trace (relay_run env n s0)) @ pending (relay_run env n s0) =
           received (trace (relay_run env n s0)) \<and>
         (at (relay_run env n s0) = Returned \<and> nread (relay_run env n s0) \<le> 0 \<longrightarrow>
            delivered (trace (relay_run env n s0)) = received (trace (relay_run env n s0))) \<and>
         (\<forall>t. ps_relay_one env g arg l0 = Some t \<longrightarrow>
            copy_protocol (trace t) = Halted \<and>
            delivered (trace t) @ pending t = received (trace t) \<and>
            (nread t \<le> 0 \<longrightarrow> delivered (trace t) = received (trace t))) \<and>
         list_all (event_on (sourcefd s0) (destfd s0)) (trace (relay_run env n s0)) \<and>
         (at (relay_run env n s0) = AtRead \<longrightarrow>
            take (Suc (length (trace (relay_run env n s0)))) (trace (relay_run env (Suc n) s0)) =
              trace (relay_run env n s0) @
                [EvRead (sourcefd s0) (sys_read env (reads (relay_run env n s0)))]) \<and>
         (at (relay_run env n s0) = AtWrite \<and> pending (relay_run env n s0) \<noteq> [] \<longrightarrow>
            take (Suc (length (trace (relay_run env n s0)))) (trace (relay_run env (Suc n) s0)) =
              trace (relay_run env n s0) @
                [EvWrite (destfd s0)
                   (nread (relay_run env n s0) - towrite (relay_run env n s0))
                   (towrite (relay_run env n s0)) (pending (relay_run env n s0))
                   (sys_write env (writes (relay_run env n s0)) (towrite (relay_run env n s0)))]) \<and>
         ((\<forall>k c. 0 < c \<longrightarrow> sys_write env k c < 0 \<or> 1 \<le> sys_write env k c) \<and>
          at (relay_run env n s0) = AtWrite \<longrightarrow>
            (\<exists>m. (at (relay_run env (m + n) s0) = AtRead \<and>
                  delivered (trace (relay_run env (m + n) s0)) = received (trace (relay_run env n s0))) \<or>
                 (at (relay_run env (m + n) s0) = Returned \<and>
                  nwritten (relay_run env (m + n) s0) < 0)))"
proof -
  define s where "s = relay_run env n s0"
  have inv: "bounds_inv s" "copy_inv s"
    using relay_invs_entry [OF assms(1,2)] relay_invs_run [of s0 env n] assms(3,4)
    by (simp_all add: s_def)
  have a: "copy_protocol (trace s) = (if at s = Returned then Halted else Copying (pending s))"
    using inv by (cases "at s") (simp_all add: copy_inv_def copy_abs_def bounds_inv_def pending_def)
  have b: "delivered (trace s) @ pending s = received (trace s)"
    using inv by (simp add: copy_inv_def)
  have c: "delivered (trace s) = received (trace s)" if "nread s \<le> 0"
    using b that by (simp add: pending_def)
  have d: "copy_protocol (trace t) = Halted \<and>
      delivered (trace t) @ pending t = received (trace t) \<and>
      (nread t \<le> 0 \<longrightarrow> delivered (trace t) = received (trace t))"
    if "ps_relay_one env g arg l0 = Some t" for t
  proof -
    from ps_relay_one_result [OF that] assms(1) obtain k
      where k: "t = relay_run env k s0" "\<not> relay_running t" by auto
    have inv: "bounds_inv t" "copy_inv t"
      using relay_invs_entry [OF assms(1,2)] relay_invs_run [of s0 env k] assms(3,4)
      by (simp_all add: k(1))
    from k(2) inv(1) have r: "at t = Returned"
      by (cases "at t") (simp_all add: relay_running_def bounds_inv_def)
    with inv(2) have "copy_protocol (trace t) = Halted"
      by (simp add: copy_inv_def copy_abs_def)
    moreover from inv(2) have e: "delivered (trace t) @ pending t = received (trace t)"
      by (simp add: copy_inv_def)
    moreover have "delivered (trace t) = received (trace t)" if "nread t \<le> 0"
      using e that by (simp add: pending_def)
    ultimately show ?thesis by blast
  qed
  note keep = relay_one_exit_path [OF assms(1), of env n]
  have f: "sourcefd s = sourcefd s0" "destfd s = destfd s0"
    using keep by (simp_all add: s_def)
  have nx: "relay_run env (Suc n) s0 = relay_step env s"
    by (simp add: relay_run_Suc s_def)
  have e: "list_all (event_on (sourcefd s0) (destfd s0)) (trace s)"
    unfolding s_def by (rule event_on_run [OF assms(1)])
  have r: "take (Suc (length (trace s))) (trace (relay_run env (Suc n) s0)) =
      trace s @ [EvRead (sourcefd s0) (sys_read env (reads s))]" if "at s = AtRead"
    using read_step_logs [OF that, of env] by (simp add: nx f)
  have w: "take (Suc (length (trace s))) (trace (relay_run env (Suc n) s0)) =
      trace s @ [EvWrite (destfd s0) (nread s - towrite s) (towrite s) (pending s)
        (sys_write env (writes s) (towrite s))]" if "at s = AtWrite \<and> pending s \<noteq> []"
  proof -
    from that have aw: "at s = AtWrite" and ne: "pending s \<noteq> []" by simp_all
    note sl = write_slice_pending [OF inv(1) aw]
    from ne have "0 < int (length (pending s))" by simp
    with sl(2) have "0 < towrite s" by simp
    from write_step_logs [OF aw this, of env] show ?thesis
      by (simp add: nx f sl(1))
  qed
  have p: "\<exists>m. (at (relay_run env (m + n) s0) = AtRead \<and>
        delivered (trace (relay_run env (m + n) s0)) = received (trace s)) \<or>
       (at (relay_run env (m + n) s0) = Returned \<and> nwritten (relay_run env (m + n) s0) < 0)"
    if "(\<forall>k c. 0 < c \<longrightarrow> sys_write env k c < 0 \<or> 1 \<le> sys_write env k c) \<and> at s = AtWrite"
  proof -
    from that have pr: "\<forall>k c. 0 < c \<longrightarrow> sys_write env k c < 0 \<or> 1 \<le> sys_write env k c"
      and aw: "at s = AtWrite" by simp_all
    from flush_progress [OF pr assms(3,4) inv aw] show ?thesis
      by (simp add: relay_run_add s_def)
  qed
  from a b c d e r w p show ?thesis unfolding s_def by blast
qed


theorem relay_one_copies_witness:
  "ps_relay_one_entry demo_shared 0 demo_frame = Some demo_start \<and>
   length (buf demo_frame) = 512 \<and> read_contract demo_env \<and> write_contract demo_env \<and>
   at (relay_run demo_env 5 demo_start) = Returned \<and>
   nread (relay_run demo_env 5 demo_start) = 0 \<and>
   copy_protocol (trace (relay_run demo_env 5 demo_start)) = Halted \<and>
   delivered (trace (relay_run demo_env 5 demo_start)) = received (trace (relay_run demo_env 5 demo_start)) \<and>
   received (trace (relay_run demo_env 5 demo_start)) = [104, 105, 10] \<and>
   ps_relay_one demo_env demo_shared 0 demo_frame = Some (relay_run demo_env 5 demo_start) \<and>
   list_all (event_on 4 3) (trace (relay_run demo_env 5 demo_start)) \<and>
   take (Suc 0) (trace (relay_run demo_env (Suc 0) demo_start)) = [EvRead 4 (ReadOk [104, 105, 10])] \<and>
   take (Suc (Suc 0)) (trace (relay_run demo_env (Suc (Suc 0)) demo_start)) =
     [EvRead 4 (ReadOk [104, 105, 10]), EvWrite 3 0 3 [104, 105, 10] 2] \<and>
   (\<exists>m. (at (relay_run demo_env (m + Suc 0) demo_start) = AtRead \<and>
         delivered (trace (relay_run demo_env (m + Suc 0) demo_start)) = [104, 105, 10]) \<or>
        (at (relay_run demo_env (m + Suc 0) demo_start) = Returned \<and>
         nwritten (relay_run demo_env (m + Suc 0) demo_start) < 0))"
proof -
  note inst = relay_one_copies [OF demo_entry demo_frame_buf demo_read_contract demo_write_contract]
  have r: "received (trace (relay_run demo_env 5 demo_start)) = [104, 105, 10]"
    by (simp add: demo_run_5)
  have v: "sourcefd demo_start = 4" "destfd demo_start = 3" "at demo_start = AtRead"
    "trace demo_start = []" "reads demo_start = 0"
    by (simp_all add: demo_start_def demo_frame_def)
  have r0: "relay_run demo_env 0 demo_start = demo_start"
    by (simp add: relay_run_def)
  have m: "at demo_mid = AtWrite" "pending demo_mid = [104, 105, 10]"
    "trace demo_mid = [EvRead 4 (ReadOk [104, 105, 10])]" "nread demo_mid = 3"
    "towrite demo_mid = 3" "writes demo_mid = 0"
    "received (trace demo_mid) = [104, 105, 10]"
    by (simp_all add: demo_mid_def demo_start_def demo_frame_def pending_def)
  have e: "sys_read demo_env 0 = ReadOk [104, 105, 10]" "sys_write demo_env 0 3 = 2"
    by (simp_all add: demo_env_def)
  have pr: "\<forall>k c. 0 < c \<longrightarrow> sys_write demo_env k c < 0 \<or> 1 \<le> sys_write demo_env k c"
    by (simp add: demo_env_def)
  from inst [of 5] demo_run_5(2,3) r demo_returns
  have a: "copy_protocol (trace (relay_run demo_env 5 demo_start)) = Halted"
    "delivered (trace (relay_run demo_env 5 demo_start)) = received (trace (relay_run demo_env 5 demo_start))"
    "list_all (event_on 4 3) (trace (relay_run demo_env 5 demo_start))"
    by (simp_all add: v)
  from inst [of 0]
  have b: "take (Suc 0) (trace (relay_run demo_env (Suc 0) demo_start)) = [EvRead 4 (ReadOk [104, 105, 10])]"
    by (simp add: r0 v e)
  from inst [of "Suc 0"]
  have c: "take (Suc (Suc 0)) (trace (relay_run demo_env (Suc (Suc 0)) demo_start)) =
     [EvRead 4 (ReadOk [104, 105, 10]), EvWrite 3 0 3 [104, 105, 10] 2]"
    by (simp add: demo_run_1 m v e)
  from inst [of "Suc 0"] pr
  have d: "\<exists>m. (at (relay_run demo_env (m + Suc 0) demo_start) = AtRead \<and>
         delivered (trace (relay_run demo_env (m + Suc 0) demo_start)) = [104, 105, 10]) \<or>
        (at (relay_run demo_env (m + Suc 0) demo_start) = Returned \<and>
         nwritten (relay_run demo_env (m + Suc 0) demo_start) < 0)"
    by (simp add: demo_run_1 m)
  from a b c d r demo_run_5(2,3) demo_returns
  show ?thesis
    using demo_entry demo_frame_buf demo_read_contract demo_write_contract by simp
qed

subsection \<open>The inner loop ends or not\<close>

lemma write_loop_stuck:
  assumes "at s = AtWrite" "0 < towrite s" "\<forall>k\<ge>writes s. sys_write env k (towrite s) = 0"
  shows "at (relay_run env n s) = AtWrite \<and> towrite (relay_run env n s) = towrite s \<and>
         writes (relay_run env n s) = writes s + n \<and>
         delivered (trace (relay_run env n s)) = delivered (trace s)"
proof (induction n)
  case 0
  show ?case using assms(1) by (simp add: relay_run_def)
next
  case (Suc n)
  define u where "u = relay_run env n s"
  from Suc have u: "at u = AtWrite" "towrite u = towrite s" "writes u = writes s + n"
    "delivered (trace u) = delivered (trace s)"
    by (simp_all add: u_def)
  have z: "sys_write env (writes u) (towrite u) = 0"
    using assms(3) u by simp
  have "relay_step env u = u\<lparr>nwritten := 0, writes := Suc (writes u),
      trace := trace u @ [EvWrite (destfd u) (nread u - towrite u) (towrite u)
        (take (nat (towrite u)) (drop (nat (nread u - towrite u)) (buf u))) 0],
      towrite := towrite u\<rparr>"
    using u assms(2) z by (simp add: relay_defs Let_def)
  then show ?case
    using u by (simp add: relay_run_Suc u_def [symmetric] delivered_append)
qed

lemma write_loop_progress:
  assumes "\<forall>k c. 0 < c \<longrightarrow> sys_write env k c < 0 \<or> 1 \<le> sys_write env k c" "at s = AtWrite"
  shows "\<exists>n. at (relay_run env n s) \<noteq> AtWrite"
  using assms(2)
proof (induction "nat (towrite s)" arbitrary: s rule: less_induct)
  case less
  show ?case
  proof (cases "0 < towrite s")
    case False
    with less.prems have "at (relay_step env s) \<noteq> AtWrite"
      by (simp add: relay_defs)
    then have "at (relay_run env (Suc 0) s) \<noteq> AtWrite"
      by (simp add: relay_run_def)
    then show ?thesis by blast
  next
    case True
    define n where "n = sys_write env (writes s) (towrite s)"
    from assms(1) True have "n < 0 \<or> 1 \<le> n" by (simp add: n_def)
    then show ?thesis
    proof
      assume "n < 0"
      with less.prems True have "at (relay_step env s) \<noteq> AtWrite"
        by (simp add: relay_defs Let_def n_def [symmetric])
      then have "at (relay_run env (Suc 0) s) \<noteq> AtWrite"
        by (simp add: relay_run_def)
      then show ?thesis by blast
    next
      assume n1: "1 \<le> n"
      with less.prems True have st: "at (relay_step env s) = AtWrite"
        "towrite (relay_step env s) = towrite s - n"
        by (simp_all add: relay_defs Let_def n_def [symmetric])
      with True n1 have "nat (towrite (relay_step env s)) < nat (towrite s)" by simp
      from less.hyps [OF this st(1)] obtain m
        where "at (relay_run env m (relay_step env s)) \<noteq> AtWrite" by blast
      then have "at (relay_run env (Suc m) s) \<noteq> AtWrite"
        by (simp add: relay_run_Suc_right)
      then show ?thesis by blast
    qed
  qed
qed

lemma write_loop_pass:
  assumes "at s = AtWrite" "at (relay_step env s) = AtWrite"
  shows "0 < towrite s" and "0 \<le> sys_write env (writes s) (towrite s)"
    and "towrite (relay_step env s) = towrite s - sys_write env (writes s) (towrite s)"
    and "writes (relay_step env s) = Suc (writes s)"
proof -
  show p: "0 < towrite s"
  proof (rule ccontr)
    assume "\<not> 0 < towrite s"
    with assms(1) have "at (relay_step env s) \<noteq> AtWrite"
      by (simp add: relay_defs)
    with assms(2) show False by simp
  qed
  show n: "0 \<le> sys_write env (writes s) (towrite s)"
  proof (rule ccontr)
    assume "\<not> 0 \<le> sys_write env (writes s) (towrite s)"
    with assms(1) p have "at (relay_step env s) \<noteq> AtWrite"
      by (simp add: relay_defs Let_def)
    with assms(2) show False by simp
  qed
  from assms(1) p n show "towrite (relay_step env s) = towrite s - sys_write env (writes s) (towrite s)"
    and "writes (relay_step env s) = Suc (writes s)"
    by (simp_all add: relay_defs Let_def)
qed

lemma write_loop_forever:
  assumes "\<forall>n. at (relay_run env n s) = AtWrite"
  shows "\<exists>n. 0 < towrite (relay_run env n s) \<and>
     (\<forall>k\<ge>writes (relay_run env n s). sys_write env k (towrite (relay_run env n s)) = 0)"
proof -
  define u where "u n = relay_run env n s" for n
  have at: "at (u n) = AtWrite" for n using assms by (simp add: u_def)
  have suc: "u (Suc n) = relay_step env (u n)" for n by (simp add: u_def relay_run_Suc)
  have pass: "0 < towrite (u n)" "0 \<le> sys_write env (writes (u n)) (towrite (u n))"
    "towrite (u (Suc n)) = towrite (u n) - sys_write env (writes (u n)) (towrite (u n))"
    "writes (u (Suc n)) = Suc (writes (u n))" for n
    using write_loop_pass [of "u n" env] at [of n] at [of "Suc n"] by (simp_all add: suc)
  have mono: "towrite (u (n + m)) \<le> towrite (u n)" for n m
  proof (induction m)
    case 0
    show ?case by simp
  next
    case (Suc m)
    from pass(2,3) [of "n + m"] Suc show ?case by simp
  qed
  obtain n0 where least: "\<And>n. nat (towrite (u n0)) \<le> nat (towrite (u n))"
    using ex_has_least_nat [of "\<lambda>n. True" 0 "\<lambda>n. nat (towrite (u n))"] by auto
  have const: "towrite (u (n0 + m)) = towrite (u n0)" for m
    using mono [of n0 m] least [of "n0 + m"] pass(1) [of n0] pass(1) [of "n0 + m"] by simp
  have wr: "writes (u (n0 + m)) = writes (u n0) + m" for m
    by (induction m) (simp_all add: pass(4))
  have zero: "sys_write env (writes (u n0) + m) (towrite (u n0)) = 0" for m
  proof -
    from pass(3) [of "n0 + m"] const [of "Suc m"] const [of m]
    have "sys_write env (writes (u (n0 + m))) (towrite (u n0)) = 0" by simp
    then show ?thesis by (simp add: wr)
  qed
  have "\<forall>k\<ge>writes (u n0). sys_write env k (towrite (u n0)) = 0"
  proof (intro allI impI)
    fix k assume "writes (u n0) \<le> k"
    then have "k = writes (u n0) + (k - writes (u n0))" by simp
    with zero [of "k - writes (u n0)"] show "sys_write env k (towrite (u n0)) = 0" by simp
  qed
  with pass(1) [of n0] show ?thesis unfolding u_def by blast
qed

lemma write_loop_None_iff:
  "write_loop env s = None \<longleftrightarrow>
     (\<exists>n. (\<forall>m\<le>n. at (relay_run env m s) = AtWrite) \<and> 0 < towrite (relay_run env n s) \<and>
          (\<forall>k\<ge>writes (relay_run env n s). sys_write env k (towrite (relay_run env n s)) = 0))"
proof
  assume "write_loop env s = None"
  then have a: "\<forall>n. at (relay_run env n s) = AtWrite"
    by (simp add: write_loop_def while_option_None_iff relay_run_def)
  from write_loop_forever [OF a] a show "\<exists>n. (\<forall>m\<le>n. at (relay_run env m s) = AtWrite) \<and>
      0 < towrite (relay_run env n s) \<and>
      (\<forall>k\<ge>writes (relay_run env n s). sys_write env k (towrite (relay_run env n s)) = 0)"
    by blast
next
  assume "\<exists>n. (\<forall>m\<le>n. at (relay_run env m s) = AtWrite) \<and> 0 < towrite (relay_run env n s) \<and>
      (\<forall>k\<ge>writes (relay_run env n s). sys_write env k (towrite (relay_run env n s)) = 0)"
  then obtain n where n: "\<forall>m\<le>n. at (relay_run env m s) = AtWrite"
    "0 < towrite (relay_run env n s)"
    "\<forall>k\<ge>writes (relay_run env n s). sys_write env k (towrite (relay_run env n s)) = 0"
    by blast
  from n(1) have "at (relay_run env n s) = AtWrite" by simp
  from write_loop_stuck [OF this n(2,3)]
  have later: "at (relay_run env j (relay_run env n s)) = AtWrite" for j by simp
  have "at (relay_run env m s) = AtWrite" for m
  proof (cases "m \<le> n")
    case True
    with n(1) show ?thesis by simp
  next
    case False
    then have "m = (m - n) + n" by simp
    with later [of "m - n"] relay_run_add [of env "m - n" n s] show ?thesis by simp
  qed
  then show "write_loop env s = None"
    by (simp add: write_loop_def while_option_None_iff relay_run_def)
qed

text \<open>
  C10. If the worker is in the inner loop with bytes left to write and every write from now
  on returns 0, the loop never ends and the worker never returns: after any number of passes
  it is still in the loop with the same \<open>towrite\<close>, one more call of \<^verbatim>\<open>write\<close> made per
  pass and nothing more delivered. If every write that is asked for at least one byte
  returns an error or at least 1, the loop ends. And the loop fails to end exactly when some
  pass is reached, the worker still in the loop with bytes left to write, from which on
  every write returns 0.
\<close>

theorem write_loop_ends_iff_progress:
  "(at s = AtWrite \<and> 0 < towrite s \<and> (\<forall>k\<ge>writes s. sys_write env k (towrite s) = 0) \<longrightarrow>
      write_loop env s = None \<and> while_option relay_running (relay_step env) s = None \<and>
      (\<forall>n. at (relay_run env n s) = AtWrite \<and> towrite (relay_run env n s) = towrite s \<and>
           writes (relay_run env n s) = writes s + n \<and>
           delivered (trace (relay_run env n s)) = delivered (trace s))) \<and>
   ((\<forall>k c. 0 < c \<longrightarrow> sys_write env k c < 0 \<or> 1 \<le> sys_write env k c) \<longrightarrow>
      (\<exists>t. write_loop env s = Some t \<and> at t \<noteq> AtWrite)) \<and>
   (write_loop env s = None \<longleftrightarrow>
      (\<exists>n. (\<forall>m\<le>n. at (relay_run env m s) = AtWrite) \<and> 0 < towrite (relay_run env n s) \<and>
           (\<forall>k\<ge>writes (relay_run env n s). sys_write env k (towrite (relay_run env n s)) = 0)))"
proof (intro conjI impI)
  assume a: "at s = AtWrite \<and> 0 < towrite s \<and> (\<forall>k\<ge>writes s. sys_write env k (towrite s) = 0)"
  then have st: "at (relay_run env n s) = AtWrite \<and> towrite (relay_run env n s) = towrite s \<and>
         writes (relay_run env n s) = writes s + n \<and>
         delivered (trace (relay_run env n s)) = delivered (trace s)" for n
    using write_loop_stuck [of s env n] by blast
  then show "\<forall>n. at (relay_run env n s) = AtWrite \<and> towrite (relay_run env n s) = towrite s \<and>
           writes (relay_run env n s) = writes s + n \<and>
           delivered (trace (relay_run env n s)) = delivered (trace s)" by blast
  from st have w: "\<forall>k. at ((relay_step env ^^ k) s) = AtWrite"
    by (simp add: relay_run_def)
  then show "write_loop env s = None"
    by (simp add: write_loop_def while_option_None_iff)
  from w show "while_option relay_running (relay_step env) s = None"
    by (simp add: while_option_None_iff relay_running_def)
next
  assume p: "\<forall>k c. 0 < c \<longrightarrow> sys_write env k c < 0 \<or> 1 \<le> sys_write env k c"
  have "\<exists>k. at ((relay_step env ^^ k) s) \<noteq> AtWrite"
  proof (cases "at s = AtWrite")
    case True
    from write_loop_progress [OF p True] show ?thesis by (simp add: relay_run_def)
  next
    case False
    then have "at ((relay_step env ^^ 0) s) \<noteq> AtWrite" by simp
    then show ?thesis by blast
  qed
  then have "write_loop env s \<noteq> None"
    by (simp add: write_loop_def while_option_None_iff)
  then obtain t where t: "write_loop env s = Some t" by auto
  then have "at t \<noteq> AtWrite"
    unfolding write_loop_def by (rule while_option_stop)
  with t show "\<exists>t. write_loop env s = Some t \<and> at t \<noteq> AtWrite" by blast
next
  show "write_loop env s = None \<longleftrightarrow>
      (\<exists>n. (\<forall>m\<le>n. at (relay_run env m s) = AtWrite) \<and> 0 < towrite (relay_run env n s) \<and>
           (\<forall>k\<ge>writes (relay_run env n s). sys_write env k (towrite (relay_run env n s)) = 0))"
    by (rule write_loop_None_iff)
qed


theorem write_loop_ends_iff_progress_witness:
  "write_loop stuck_env demo_mid = None \<and>
   at (relay_run stuck_env 7 demo_mid) = AtWrite \<and>
   towrite (relay_run stuck_env 7 demo_mid) = 3 \<and>
   writes (relay_run stuck_env 7 demo_mid) = 7 \<and>
   (\<exists>t. write_loop demo_env demo_mid = Some t \<and> at t \<noteq> AtWrite)"
proof -
  have h1: "at demo_mid = AtWrite \<and> 0 < towrite demo_mid \<and>
      (\<forall>k\<ge>writes demo_mid. sys_write stuck_env k (towrite demo_mid) = 0)"
    by (simp add: demo_mid_def stuck_env_def)
  have h2: "\<forall>k c. 0 < c \<longrightarrow> sys_write demo_env k c < 0 \<or> 1 \<le> sys_write demo_env k c"
    by (simp add: demo_env_def)
  have v: "towrite demo_mid = 3" "writes demo_mid = 0"
    by (simp_all add: demo_mid_def demo_start_def demo_frame_def)
  from write_loop_ends_iff_progress [of demo_mid stuck_env] h1
  have "write_loop stuck_env demo_mid = None"
    and "at (relay_run stuck_env 7 demo_mid) = AtWrite \<and>
         towrite (relay_run stuck_env 7 demo_mid) = towrite demo_mid \<and>
         writes (relay_run stuck_env 7 demo_mid) = writes demo_mid + 7"
    by blast+
  moreover from write_loop_ends_iff_progress [of demo_mid demo_env] h2
  have "\<exists>t. write_loop demo_env demo_mid = Some t \<and> at t \<noteq> AtWrite"
    by blast
  ultimately show ?thesis by (simp add: v)
qed

subsection \<open>Which way a worker copies\<close>

lemma other_index_nonneg:
  assumes "0 \<le> d" "d < INT_MAX"
  shows "other_index d = Some (if even d then 1 else 0)"
proof -
  have "(d + 1) smod 2 = (d + 1) mod 2"
    using assms by (simp add: signed_modulo_int_def sgn_if)
  also have "\<dots> = (if even d then 1 else 0)"
    by presburger
  finally show ?thesis using assms by (simp add: other_index_def)
qed

lemma ps_relay_ok:
  assumes "create 0 = Some t0" "create 1 = Some t1"
    and "length (ps_relay_fds g) = 2" "length (ps_relay_threads g) = 2"
  shows "ps_relay create g pfd mfd =
     (0, g\<lparr>ps_relay_fds := [pfd, mfd], ps_relay_threads := [t0, t1]\<rparr>,
      [StoreFd 0 pfd, StoreFd 1 mfd, PthreadCreate 0 0 (Some t0), PthreadCreate 1 1 (Some t1),
       PthreadDetach t0, PthreadDetach t1])"
proof -
  from assms(3) obtain a b where f: "ps_relay_fds g = [a, b]"
    by (cases "ps_relay_fds g"; cases "tl (ps_relay_fds g)") auto
  from assms(4) obtain c d where h: "ps_relay_threads g = [c, d]"
    by (cases "ps_relay_threads g"; cases "tl (ps_relay_threads g)") auto
  show ?thesis
    using assms(1,2) by (simp add: ps_relay_def f h Let_def)
qed

lemma worker_direction_parity:
  assumes "0 \<le> pfd" "pfd < INT_MAX" "0 \<le> mfd" "mfd < INT_MAX"
    and "ps_relay_fds g = [pfd, mfd]" "ps_relay_threads g = [t0, t1]"
  shows "worker_direction g 0 l0 = Some (pfd, if even pfd then mfd else pfd)"
    and "worker_direction g 1 l0 = Some (mfd, if even mfd then mfd else pfd)"
    and "worker_cancels g 0 l0 = Some (if even pfd then t1 else t0)"
    and "worker_cancels g 1 l0 = Some (if even mfd then t1 else t0)"
  using assms
  by (simp_all add: worker_direction_def worker_cancels_def ps_relay_one_entry_def table_get_def
      other_index_nonneg)

text \<open>
  C1, at peer descriptor 5 and pty master descriptor 4. Both workers are created, and
  each is its own destination: the worker that reads the peer writes to the peer, the
  worker that reads the pty master writes to the pty master.
\<close>

theorem relay_directions_shifted:
  "ps_relay demo_create relay_shared0 5 4 =
     (0, shifted_shared,
      [StoreFd 0 5, StoreFd 1 4, PthreadCreate 0 0 (Some 1), PthreadCreate 1 1 (Some 2),
       PthreadDetach 1, PthreadDetach 2]) \<and>
   worker_direction shifted_shared 0 demo_frame = Some (5, 5) \<and>
   worker_direction shifted_shared 1 demo_frame = Some (4, 4)"
  by (simp add: ps_relay_def demo_create_def relay_shared0_def shifted_shared_def Let_def
      worker_direction_def ps_relay_one_entry_def table_get_def other_index_def INT_MAX_def
      signed_modulo_int_def)

subsection \<open>How a worker ends\<close>

text \<open>
  C3, at peer descriptor 5 and pty master descriptor 4, for the worker that reads the
  peer (argument 0, handle 1) when the peer is at end-of-stream: it closes descriptor 5,
  its own source, and cancels handle 1, its own.
\<close>

theorem relay_cancel_shifted:
  "worker_cancels shifted_shared 0 demo_frame = Some (ps_relay_threads shifted_shared ! 0) \<and>
   worker_cancels shifted_shared 1 demo_frame = Some (ps_relay_threads shifted_shared ! 1) \<and>
   map_option (\<lambda>s. trace (relay_run eof_env (Suc 0) s)) (ps_relay_one_entry shifted_shared 0 demo_frame)
     = Some [EvRead 5 (ReadOk []), EvClose 5, EvCancel 1]"
  by (simp add: worker_cancels_def shifted_shared_def ps_relay_one_entry_def table_get_def
      other_index_def INT_MAX_def signed_modulo_int_def demo_frame_def relay_run_def relay_defs
      eof_env_def Let_def)

subsection \<open>The line discipline\<close>

lemma ldisc_present:
  assumes "''ldterm'' \<in> set mods"
  shows "fst (snd (ps_init_slavepty_ldisc env sfd mods)) = mods"
    and "pushes (snd (snd (ps_init_slavepty_ldisc env sfd mods))) = []"
    and "\<not> find_fails env \<Longrightarrow> fst (ps_init_slavepty_ldisc env sfd mods) = 0"
  using assms by (simp_all add: ps_init_slavepty_ldisc_def ioctl_find_def Let_def)

lemma ldisc_success:
  assumes "ps_init_slavepty_ldisc env sfd mods = (0, mods1, ev1)"
  shows "mods1 = (if ''ldterm'' \<in> set mods then mods else ''ttcompat'' # ''ldterm'' # ''ptem'' # mods)"
    and "pushes ev1 = (if ''ldterm'' \<in> set mods then [] else [''ptem'', ''ldterm'', ''ttcompat''])"
  using assms
  by (auto simp add: ps_init_slavepty_ldisc_def ioctl_find_def ioctl_push_def Let_def
      split: if_splits)

lemma ldisc_push_order:
  "take (length (pushes (snd (snd (ps_init_slavepty_ldisc env sfd mods)))))
     [''ptem'', ''ldterm'', ''ttcompat''] = pushes (snd (snd (ps_init_slavepty_ldisc env sfd mods)))"
  by (simp add: ps_init_slavepty_ldisc_def ioctl_push_def Let_def)

lemma ldisc_pushed_stay:
  "fst (snd (ps_init_slavepty_ldisc env sfd mods)) =
     rev (pushed (snd (snd (ps_init_slavepty_ldisc env sfd mods)))) @ mods"
  by (simp add: ps_init_slavepty_ldisc_def ioctl_push_def Let_def)

lemma ldisc_absent_ok:
  assumes "''ldterm'' \<notin> set mods" "\<not> find_fails env"
    and "0 \<le> push_ret env ''ptem''" "0 \<le> push_ret env ''ldterm''" "0 \<le> push_ret env ''ttcompat''"
  shows "ps_init_slavepty_ldisc env sfd mods =
     (0, ''ttcompat'' # ''ldterm'' # ''ptem'' # mods,
      [Find sfd ''ldterm'' 0, Push sfd ''ptem'' (push_ret env ''ptem''),
       Push sfd ''ldterm'' (push_ret env ''ldterm''),
       Push sfd ''ttcompat'' (push_ret env ''ttcompat'')])"
  using assms by (simp add: ps_init_slavepty_ldisc_def ioctl_find_def ioctl_push_def Let_def)

lemma ldisc_present_ok:
  assumes "''ldterm'' \<in> set mods" "\<not> find_fails env"
  shows "ps_init_slavepty_ldisc env sfd mods = (0, mods, [Find sfd ''ldterm'' 1])"
  using assms by (simp add: ps_init_slavepty_ldisc_def ioctl_find_def Let_def)

text \<open>
  C6 as stated fails on an empty slave stream when pushing \<open>ldterm\<close> fails: one run of the
  preparation leaves \<open>ptem\<close> on the stream and returns \<open>-1\<close>; a second run does not find
  \<open>ldterm\<close> and pushes \<open>ptem\<close> again.
\<close>

theorem ldisc_failed_push_repeats:
  "ps_init_slavepty_ldisc ldterm_fail_slave 3 [] =
     (-1, [''ptem''],
      [Find 3 ''ldterm'' 0, Push 3 ''ptem'' 0, Push 3 ''ldterm'' (-1),
       Perror ''child's child: ioctl(I_PUSH, ldterm)'']) \<and>
   ps_init_slavepty_ldisc ldterm_fail_slave 3 [''ptem''] =
     (-1, [''ptem'', ''ptem''],
      [Find 3 ''ldterm'' 0, Push 3 ''ptem'' 0, Push 3 ''ldterm'' (-1),
       Perror ''child's child: ioctl(I_PUSH, ldterm)''])"
  by (simp add: ps_init_slavepty_ldisc_def ioctl_find_def ioctl_push_def ldterm_fail_slave_def
      Let_def)

text \<open>
  C6, amended. The preparation of lines 219-239 first asks whether \<open>ldterm\<close> is on the
  slave stream. If it is, nothing is pushed and the stream is left as it is, and the
  preparation succeeds unless \<^verbatim>\<open>I_FIND\<close> itself fails. If it is not, and the calls succeed,
  \<open>ptem\<close>, \<open>ldterm\<close> and \<open>ttcompat\<close> are pushed in that order and the preparation succeeds.
  What is pushed is always a beginning of that list, and whatever was pushed stays on the
  stream, also when the preparation fails. Running the preparation again on the stream a
  successful preparation left, whatever the operating system answers this time, pushes
  nothing and leaves the stream as it was; it succeeds again unless \<^verbatim>\<open>I_FIND\<close> fails.
\<close>

theorem ldisc_idempotent:
  "(''ldterm'' \<in> set mods \<longrightarrow>
      fst (snd (ps_init_slavepty_ldisc env1 sfd mods)) = mods \<and>
      pushes (snd (snd (ps_init_slavepty_ldisc env1 sfd mods))) = [] \<and>
      (\<not> find_fails env1 \<longrightarrow>
         ps_init_slavepty_ldisc env1 sfd mods = (0, mods, [Find sfd ''ldterm'' 1]))) \<and>
   (''ldterm'' \<notin> set mods \<and> \<not> find_fails env1 \<and> 0 \<le> push_ret env1 ''ptem'' \<and>
    0 \<le> push_ret env1 ''ldterm'' \<and> 0 \<le> push_ret env1 ''ttcompat'' \<longrightarrow>
      ps_init_slavepty_ldisc env1 sfd mods =
        (0, ''ttcompat'' # ''ldterm'' # ''ptem'' # mods,
         [Find sfd ''ldterm'' 0, Push sfd ''ptem'' (push_ret env1 ''ptem''),
          Push sfd ''ldterm'' (push_ret env1 ''ldterm''),
          Push sfd ''ttcompat'' (push_ret env1 ''ttcompat'')])) \<and>
   take (length (pushes (snd (snd (ps_init_slavepty_ldisc env1 sfd mods)))))
     [''ptem'', ''ldterm'', ''ttcompat''] = pushes (snd (snd (ps_init_slavepty_ldisc env1 sfd mods))) \<and>
   fst (snd (ps_init_slavepty_ldisc env1 sfd mods)) =
     rev (pushed (snd (snd (ps_init_slavepty_ldisc env1 sfd mods)))) @ mods \<and>
   (ps_init_slavepty_ldisc env1 sfd mods = (0, mods1, ev1) \<longrightarrow>
      mods1 = (if ''ldterm'' \<in> set mods then mods else ''ttcompat'' # ''ldterm'' # ''ptem'' # mods) \<and>
      pushes ev1 = (if ''ldterm'' \<in> set mods then [] else [''ptem'', ''ldterm'', ''ttcompat'']) \<and>
      fst (snd (ps_init_slavepty_ldisc env2 sfd mods1)) = mods1 \<and>
      pushes (snd (snd (ps_init_slavepty_ldisc env2 sfd mods1))) = [] \<and>
      (\<not> find_fails env2 \<longrightarrow>
         ps_init_slavepty_ldisc env2 sfd mods1 = (0, mods1, [Find sfd ''ldterm'' 1])))"
proof (intro conjI impI)
  assume p: "''ldterm'' \<in> set mods"
  from ldisc_present [OF p, of env1 sfd]
  show "fst (snd (ps_init_slavepty_ldisc env1 sfd mods)) = mods"
    and "pushes (snd (snd (ps_init_slavepty_ldisc env1 sfd mods))) = []"
    by simp_all
  assume "\<not> find_fails env1"
  with p show "ps_init_slavepty_ldisc env1 sfd mods = (0, mods, [Find sfd ''ldterm'' 1])"
    by (rule ldisc_present_ok)
next
  assume "''ldterm'' \<notin> set mods \<and> \<not> find_fails env1 \<and> 0 \<le> push_ret env1 ''ptem'' \<and>
    0 \<le> push_ret env1 ''ldterm'' \<and> 0 \<le> push_ret env1 ''ttcompat''"
  then show "ps_init_slavepty_ldisc env1 sfd mods =
        (0, ''ttcompat'' # ''ldterm'' # ''ptem'' # mods,
         [Find sfd ''ldterm'' 0, Push sfd ''ptem'' (push_ret env1 ''ptem''),
          Push sfd ''ldterm'' (push_ret env1 ''ldterm''),
          Push sfd ''ttcompat'' (push_ret env1 ''ttcompat'')])"
    by (simp add: ldisc_absent_ok)
next
  show "take (length (pushes (snd (snd (ps_init_slavepty_ldisc env1 sfd mods)))))
     [''ptem'', ''ldterm'', ''ttcompat''] = pushes (snd (snd (ps_init_slavepty_ldisc env1 sfd mods)))"
    by (rule ldisc_push_order)
next
  show "fst (snd (ps_init_slavepty_ldisc env1 sfd mods)) =
     rev (pushed (snd (snd (ps_init_slavepty_ldisc env1 sfd mods)))) @ mods"
    by (rule ldisc_pushed_stay)
next
  assume a: "ps_init_slavepty_ldisc env1 sfd mods = (0, mods1, ev1)"
  note s = ldisc_success [OF a]
  from s show "mods1 = (if ''ldterm'' \<in> set mods then mods else ''ttcompat'' # ''ldterm'' # ''ptem'' # mods)"
    and "pushes ev1 = (if ''ldterm'' \<in> set mods then [] else [''ptem'', ''ldterm'', ''ttcompat''])"
    by simp_all
  from s(1) have p: "''ldterm'' \<in> set mods1" by (simp split: if_splits)
  from ldisc_present [OF p, of env2 sfd]
  show "fst (snd (ps_init_slavepty_ldisc env2 sfd mods1)) = mods1"
    and "pushes (snd (snd (ps_init_slavepty_ldisc env2 sfd mods1))) = []"
    by simp_all
  assume "\<not> find_fails env2"
  with p show "ps_init_slavepty_ldisc env2 sfd mods1 = (0, mods1, [Find sfd ''ldterm'' 1])"
    by (rule ldisc_present_ok)
qed

theorem ldisc_idempotent_witness:
  "''ldterm'' \<notin> set [] \<and> \<not> find_fails slave_ok \<and> 0 \<le> push_ret slave_ok ''ptem'' \<and>
   0 \<le> push_ret slave_ok ''ldterm'' \<and> 0 \<le> push_ret slave_ok ''ttcompat'' \<and>
   ps_init_slavepty_ldisc slave_ok 3 [] =
     (0, [''ttcompat'', ''ldterm'', ''ptem''],
      [Find 3 ''ldterm'' 0, Push 3 ''ptem'' 0, Push 3 ''ldterm'' 0, Push 3 ''ttcompat'' 0]) \<and>
   ps_init_slavepty_ldisc slave_ok 3 [''ttcompat'', ''ldterm'', ''ptem''] =
     (0, [''ttcompat'', ''ldterm'', ''ptem''], [Find 3 ''ldterm'' 1]) \<and>
   ''ldterm'' \<in> set [''ldterm'', ''ptem''] \<and>
   ps_init_slavepty_ldisc slave_ok 3 [''ldterm'', ''ptem''] =
     (0, [''ldterm'', ''ptem''], [Find 3 ''ldterm'' 1])"
proof -
  have h: "''ldterm'' \<notin> set [] \<and> \<not> find_fails slave_ok \<and> 0 \<le> push_ret slave_ok ''ptem'' \<and>
      0 \<le> push_ret slave_ok ''ldterm'' \<and> 0 \<le> push_ret slave_ok ''ttcompat''"
    by (simp add: slave_ok_def)
  have v: "push_ret slave_ok ''ptem'' = 0" "push_ret slave_ok ''ldterm'' = 0"
    "push_ret slave_ok ''ttcompat'' = 0"
    by (simp_all add: slave_ok_def)
  have f: "\<not> find_fails slave_ok" by (simp add: slave_ok_def)
  have p: "''ldterm'' \<in> set [''ldterm'', ''ptem'']" by simp
  have a: "ps_init_slavepty_ldisc slave_ok 3 [] =
     (0, [''ttcompat'', ''ldterm'', ''ptem''],
      [Find 3 ''ldterm'' 0, Push 3 ''ptem'' 0, Push 3 ''ldterm'' 0, Push 3 ''ttcompat'' 0])"
    using ldisc_idempotent [of "[]" slave_ok 3, THEN conjunct2, THEN conjunct1, THEN mp, OF h]
    by (simp only: v)
  have b: "ps_init_slavepty_ldisc slave_ok 3 [''ttcompat'', ''ldterm'', ''ptem''] =
     (0, [''ttcompat'', ''ldterm'', ''ptem''], [Find 3 ''ldterm'' 1])"
    by (rule ldisc_idempotent [of "[]" slave_ok 3, THEN conjunct2, THEN conjunct2, THEN conjunct2,
          THEN conjunct2, THEN mp, OF a, THEN conjunct2, THEN conjunct2, THEN conjunct2,
          THEN conjunct2, THEN mp, OF f])
  have c: "ps_init_slavepty_ldisc slave_ok 3 [''ldterm'', ''ptem''] =
     (0, [''ldterm'', ''ptem''], [Find 3 ''ldterm'' 1])"
    by (rule ldisc_idempotent [of "[''ldterm'', ''ptem'']" slave_ok 3, THEN conjunct1, THEN mp,
          OF p, THEN conjunct2, THEN conjunct2, THEN mp, OF f])
  show ?thesis
    by (intro conjI) (rule h [THEN conjunct1], rule h [THEN conjunct2, THEN conjunct1],
      rule h [THEN conjunct2, THEN conjunct2, THEN conjunct1],
      rule h [THEN conjunct2, THEN conjunct2, THEN conjunct2, THEN conjunct1],
      rule h [THEN conjunct2, THEN conjunct2, THEN conjunct2, THEN conjunct2],
      rule a, rule b, rule p, rule c)
qed

subsection \<open>Publishing the shared relay state\<close>

lemma ps_relay_replay:
  "shared_after g (snd (snd (ps_relay create g pfd mfd))) = fst (snd (ps_relay create g pfd mfd))"
  by (simp add: ps_relay_def Let_def split: option.splits)

text \<open>
  When both workers are created, each of the four slots of the shared state is stored
  exactly once; the two descriptors are stored before any worker is started and not
  afterwards; the handle of each worker is stored by the call that starts it, so that the
  second handle is stored after the first worker was started. A worker copies what it needs
  at entry and keeps it: its source, its destination and the handle it will cancel never
  change.
\<close>

lemma relay_state_publication:
  assumes "create 0 = Some t0" "create 1 = Some t1"
    and "length (ps_relay_fds g) = 2" "length (ps_relay_threads g) = 2"
    and "ps_relay create g pfd mfd = (r, g1, ev)"
  shows "r = 0 \<and> ps_relay_fds g1 = [pfd, mfd] \<and> ps_relay_threads g1 = [t0, t1] \<and>
         fd_stores 0 ev = [pfd] \<and> fd_stores 1 ev = [mfd] \<and>
         handle_stores 0 ev = [t0] \<and> handle_stores 1 ev = [t1] \<and>
         no_fd_store_after_start False ev \<and> \<not> no_store_after_start False ev \<and>
         (\<forall>env arg l0 s n. ps_relay_one_entry g1 arg l0 = Some s \<longrightarrow>
            sourcefd (relay_run env n s) = sourcefd s \<and>
            destfd (relay_run env n s) = destfd s \<and>
            other (relay_run env n s) = other s)"
proof -
  from ps_relay_ok [OF assms(1-4), of pfd mfd] assms(5)
  have "r = 0" "g1 = g\<lparr>ps_relay_fds := [pfd, mfd], ps_relay_threads := [t0, t1]\<rparr>"
    "ev = [StoreFd 0 pfd, StoreFd 1 mfd, PthreadCreate 0 0 (Some t0), PthreadCreate 1 1 (Some t1),
       PthreadDetach t0, PthreadDetach t1]"
    by simp_all
  moreover have "sourcefd (relay_run env n s) = sourcefd s \<and>
            destfd (relay_run env n s) = destfd s \<and>
            other (relay_run env n s) = other s"
    if "ps_relay_one_entry g1 arg l0 = Some s" for env arg l0 s n
    using relay_one_exit_path [OF that] by simp
  ultimately show ?thesis by simp
qed

text \<open>
  C8, for a session on descriptors 4 and 3, both workers created. The second handle is
  stored by the second \<^verbatim>\<open>pthread_create\<close>, after the first worker was started: when the
  first worker is started, slot 1 of the handle table still holds its initial 0. The first
  worker reads slot 1 at entry (line 291); if it runs before the second
  \<^verbatim>\<open>pthread_create\<close> it takes 0 for the handle it will cancel, where the handle of the other
  worker is 2.
\<close>

theorem relay_store_after_start:
  "snd (snd (ps_relay demo_create relay_shared0 4 3)) =
     [StoreFd 0 4, StoreFd 1 3, PthreadCreate 0 0 (Some 1), PthreadCreate 1 1 (Some 2),
      PthreadDetach 1, PthreadDetach 2] \<and>
   \<not> no_store_after_start False (snd (snd (ps_relay demo_create relay_shared0 4 3))) \<and>
   shared_after relay_shared0 (take 3 (snd (snd (ps_relay demo_create relay_shared0 4 3)))) =
     early_shared \<and>
   shared_after relay_shared0 (snd (snd (ps_relay demo_create relay_shared0 4 3))) = demo_shared \<and>
   worker_cancels early_shared 0 demo_frame = Some 0 \<and>
   worker_cancels demo_shared 0 demo_frame = Some 2"
  by (simp add: ps_relay_def demo_create_def relay_shared0_def early_shared_def demo_shared_def
      Let_def worker_cancels_def ps_relay_one_entry_def table_get_def other_index_def INT_MAX_def
      signed_modulo_int_def)

subsection \<open>A failing pty allocation\<close>

text \<open>
  C7 as stated fails when \<^verbatim>\<open>grantpt\<close> fails on the master just opened as descriptor 3:
  the function returns \<open>-1\<close> and has not closed the descriptor.
\<close>

theorem grantpt_failure_leaves_master_open:
  "ps_server_connected grant_fail_env relay_shared0 4 =
     (Return (-1), relay_shared0, [Openpt 3, Grantpt 3 (-1), Perror ''child: grantpt'']) \<and>
   Close 3 \<notin> set (snd (snd (ps_server_connected grant_fail_env relay_shared0 4)))"
  by (simp add: ps_server_connected_def grant_fail_env_def Let_def)

text \<open>
  C7, amended. When opening the master, granting access or unlocking the slave fails,
  \<^verbatim>\<open>ps_server_connected\<close> returns \<open>-1\<close> with the shared relay state untouched, having made
  no call but the allocation steps and the report of the failure, which is its last call:
  no fork, no thread, and no close, so that a master that was opened is still open when
  the function returns. The process then exits with that value.
\<close>

theorem allocation_failure_returns:
  assumes "sys_openpt env < 0 \<or> sys_grantpt env \<noteq> 0 \<or> sys_unlockpt env \<noteq> 0"
    and "ps_server_connected env g pfd = (out, g1, ev)"
  shows "out = Return (-1) \<and> g1 = g \<and> list_all alloc_call ev \<and>
         hd ev = Openpt (sys_openpt env) \<and> (\<exists>m. last ev = Perror m) \<and>
         (\<forall>d. Close d \<notin> set ev) \<and>
         (\<forall>senv s. session senv = env \<and> relay_state s = g \<and> peerfd s = pfd \<longrightarrow>
            sat (server_child senv s) = ChildGone (Exit (-1)))"
proof -
  from assms have a: "out = Return (-1)" "g1 = g" "list_all alloc_call ev"
    "hd ev = Openpt (sys_openpt env)" "\<exists>m. last ev = Perror m"
    by (auto simp add: ps_server_connected_def Let_def split: if_splits)
  have "Close d \<notin> set ev" for d
  proof
    assume "Close d \<in> set ev"
    with a(3) have "alloc_call (Close d)" by (auto simp add: list_all_iff)
    then show False by simp
  qed
  moreover have "sat (server_child senv s) = ChildGone (Exit (-1))"
    if "session senv = env \<and> relay_state s = g \<and> peerfd s = pfd" for senv s
    using that assms(2) a(1) by (simp add: server_child_def slog_events_def)
  ultimately show ?thesis using a by blast
qed

theorem allocation_failure_returns_witness:
  "ps_server_connected grant_fail_env relay_shared0 4 =
     (Return (-1), relay_shared0, [Openpt 3, Grantpt 3 (-1), Perror ''child: grantpt'']) \<and>
   sys_grantpt grant_fail_env \<noteq> 0 \<and>
   sat (server_child child_env (server_frame\<lparr>peerfd := 4\<rparr>)) = ChildGone (Exit (-1))"
proof -
  have h: "sys_openpt grant_fail_env < 0 \<or> sys_grantpt grant_fail_env \<noteq> 0 \<or>
      sys_unlockpt grant_fail_env \<noteq> 0"
    by (simp add: grant_fail_env_def)
  have p: "ps_server_connected grant_fail_env relay_shared0 4 =
     (Return (-1), relay_shared0, [Openpt 3, Grantpt 3 (-1), Perror ''child: grantpt''])"
    by (simp add: ps_server_connected_def grant_fail_env_def Let_def)
  have s: "session child_env = grant_fail_env \<and>
      relay_state (server_frame\<lparr>peerfd := 4\<rparr>) = relay_shared0 \<and>
      peerfd (server_frame\<lparr>peerfd := 4\<rparr>) = 4"
    by (simp add: child_env_def server_frame_def)
  from allocation_failure_returns [OF h p] s
  have "sat (server_child child_env (server_frame\<lparr>peerfd := 4\<rparr>)) = ChildGone (Exit (-1))"
    by blast
  with p show ?thesis by (simp add: grant_fail_env_def)
qed

subsection \<open>The accept loop\<close>

lemma server_run_Suc: "server_run env (Suc n) s = server_step env (server_run env n s)"
  by (simp add: server_run_def)

lemmas server_defs =
  server_step_def server_parent_def server_child_def server_exit_def slog_events_def

lemma accepted_append: "accepted (xs @ ys) = accepted xs @ accepted ys"
  by (induction xs rule: accepted.induct) simp_all

lemma serial_monitor_append:
  "serial_monitor (xs @ ys) = foldl serial_event (serial_monitor xs) ys"
  by (simp add: serial_monitor_def)

lemma serial_no_accept:
  assumes "accepted ev = []" "st \<noteq> Overlap"
  shows "foldl serial_event st ev \<noteq> Overlap"
  using assms
proof (induction ev arbitrary: st)
  case Nil
  then show ?case by simp
next
  case (Cons e es)
  from Cons.prems(1) have es: "accepted es = []"
    by (cases e) simp_all
  from Cons.prems have "serial_event st e \<noteq> Overlap"
    by (cases e; cases st) (simp_all add: serial_event_def)
  from Cons.IH [OF es this] show ?case by simp
qed

lemma relay_no_accept: "accepted (snd (snd (ps_relay c g a b))) = []"
  by (simp add: ps_relay_def Let_def split: option.splits)

lemma ldisc_no_accept: "accepted (snd (snd (ps_init_slavepty_ldisc env d mods))) = []"
  by (simp add: ps_init_slavepty_ldisc_def Let_def split: prod.splits)

lemma slavepty_no_accept: "accepted (snd (snd (ps_init_slavepty env d mods))) = []"
proof -
  obtain r m ev where l: "ps_init_slavepty_ldisc env (sys_open env) mods = (r, m, ev)"
    by (cases "ps_init_slavepty_ldisc env (sys_open env) mods") auto
  with ldisc_no_accept [of env "sys_open env" mods] have "accepted ev = []" by simp
  with l show ?thesis
    by (simp add: ps_init_slavepty_def Let_def accepted_append)
qed

lemma session_no_accept: "accepted (snd (snd (ps_server_connected env g d))) = []"
proof -
  obtain r g1 ev where p: "ps_relay (sys_pthread_create env) g d (sys_openpt env) = (r, g1, ev)"
    by (cases "ps_relay (sys_pthread_create env) g d (sys_openpt env)") auto
  with relay_no_accept [of "sys_pthread_create env" g d "sys_openpt env"]
  have pe: "accepted ev = []" by simp
  obtain r2 m ev2 where q: "ps_init_slavepty (slave env) (sys_openpt env) (slave_mods env) = (r2, m, ev2)"
    by (cases "ps_init_slavepty (slave env) (sys_openpt env) (slave_mods env)") auto
  with slavepty_no_accept [of "slave env" "sys_openpt env" "slave_mods env"]
  have qe: "accepted ev2 = []" by simp
  show ?thesis
    by (simp add: ps_server_connected_def Let_def p q pe qe accepted_append)
qed

lemma serial_inv_step:
  assumes "serial_inv s"
  shows "serial_inv (server_step env s)"
proof (cases "sat s")
  case Accepting
  with assms have idle: "serial_monitor (slog s) = Idle"
    by (simp add: serial_inv_def)
  define a where "a = sys_accept env (accepts s)"
  define p where "p = sys_fork env (forks s)"
  show ?thesis
  proof (cases "0 \<le> a")
    case False
    with Accepting idle show ?thesis
      by (simp add: serial_inv_def server_defs Let_def a_def [symmetric]
          serial_monitor_append serial_event_def)
  next
    case True
    consider "p < 0" | "p = 0" | "0 < p" by linarith
    then show ?thesis
    proof cases
      case 1
      with Accepting idle True show ?thesis
        by (simp add: serial_inv_def server_defs Let_def a_def [symmetric] p_def [symmetric]
            serial_monitor_append serial_event_def)
    next
      case 3
      with Accepting idle True show ?thesis
        by (simp add: serial_inv_def server_defs Let_def a_def [symmetric] p_def [symmetric]
            serial_monitor_append serial_event_def)
    next
      case 2
      obtain out g ev where c: "ps_server_connected (session env) (relay_state s) a = (out, g, ev)"
        by (cases "ps_server_connected (session env) (relay_state s) a") auto
      with session_no_accept [of "session env" "relay_state s" a] have "accepted ev = []"
        by simp
      then have "foldl serial_event Accepted ev \<noteq> Overlap"
        by (rule serial_no_accept) simp
      with Accepting idle True 2 c show ?thesis
        by (simp add: serial_inv_def server_defs Let_def a_def [symmetric] p_def [symmetric]
            serial_monitor_append serial_event_def)
    qed
  qed
next
  case ServerReturned
  with assms show ?thesis by (simp add: server_step_def)
next
  case (ChildGone out)
  with assms show ?thesis by (simp add: server_step_def)
next
  case ServerAborted
  with assms show ?thesis by (simp add: server_step_def)
qed

lemma serial_inv_run: "serial_inv (server_run env n (server_entry sockfd s0))"
proof (induction n)
  case 0
  show ?case
    by (simp add: server_run_def server_entry_def serial_inv_def serial_monitor_def)
next
  case (Suc n)
  then show ?case by (simp add: server_run_Suc serial_inv_step)
qed

lemma serving_run_2:
  "sat (server_run serving_env 2 (server_entry 3 server_frame)) = Accepting"
  "slog (server_run serving_env 2 (server_entry 3 server_frame)) =
     [Accept 4, Fork 100, Close 4, Report ''forked child'' 100, Wait 100 0,
      Report ''child exited with status'' 0,
      Accept 4, Fork 101, Close 4, Report ''forked child'' 101, Wait 101 256,
      Report ''child exited with status'' 256]"
  by (simp_all add: server_run_def eval_nat_numeral server_defs server_entry_def server_frame_def
      serving_env_def Let_def)

text \<open>
  C5. In every run of the accept loop, after any number of passes, the log never shows a
  connection accepted while a connection already accepted has not been followed by a
  successful fork and then by a \<^verbatim>\<open>wait\<close> that returned the forked child; and whenever the
  loop is about to call \<^verbatim>\<open>accept\<close>, no child is outstanding.
\<close>

theorem one_session_at_a_time:
  "serial_monitor (slog (server_run env n (server_entry sockfd s0))) \<noteq> Overlap \<and>
   (sat (server_run env n (server_entry sockfd s0)) = Accepting \<longrightarrow>
      serial_monitor (slog (server_run env n (server_entry sockfd s0))) = Idle)"
  using serial_inv_run [of env n sockfd s0]
  by (auto simp add: serial_inv_def split: if_splits)

theorem one_session_at_a_time_witness:
  "sat (server_run serving_env 2 (server_entry 3 server_frame)) = Accepting \<and>
   accepted (slog (server_run serving_env 2 (server_entry 3 server_frame))) = [4, 4] \<and>
   serial_monitor (slog (server_run serving_env 2 (server_entry 3 server_frame))) = Idle"
  using one_session_at_a_time [of serving_env 2 3 server_frame] serving_run_2
  by simp

subsection \<open>Which failures end the server\<close>

















end
